theory Spec2Isabelle
  imports Main "HOL-Library.AList" "HOL-Library.Sublist"
begin

section \<open>The tsserver protocol client (src/tsserver/client.ts)\<close>

text \<open>
  The class \<open>TSServerClient\<close> is embedded as a record of its fields and one state
  function per method or callback.  Strings are lists of characters (JavaScript string
  units), numbers are unbounded integers, the \<open>Map\<close> of pending requests is an
  insertion-ordered association list (\<open>AList.update\<close> is \<open>Map.set\<close>,
  \<open>AList.delete\<close> is \<open>Map.delete\<close>), and the \<open>Set\<close> of open files is a set.
  What the class does to the outside (settling a promise, writing to the child's stdin,
  emitting an event, killing the child) is appended to the field \<open>effects\<close>; the
  warn, error and info calls of the logger are appended to \<open>logs\<close>, and the message
  logged on entry of \<open>handleMessage\<close> to \<open>received\<close>.  Debug-level logging is
  left out.  \<open>JSON.parse\<close> and \<open>path.resolve\<close> belong to the runtime and are
  parameters.  The timers of the runtime are a queue in the state, with a clock in
  milliseconds: \<open>elapse\<close> lets time pass and fires what is due.  An \<open>await\<close> is
  the place where other callbacks run: the events of a schedule in \<open>retryLoop\<close>, the
  passing of time in \<open>stop\<close>; \<open>openFile\<close> and \<open>closeFile\<close> are each cut at
  their \<open>await\<close> in the part that runs at the call and the part that runs when the
  call resumes.  The sequence counter does not saturate at \<open>2^53\<close> as a JavaScript
  number would.
\<close>

subsection \<open>Protocol data (src/tsserver/protocol.ts)\<close>

datatype json = JNull | JBool bool | JNum int | JStr string
  | JArr "json list" | JObj "(string \<times> json) list"

record TSServerResponse =
  seq :: int
  command :: string
  request_seq :: int
  success :: bool
  message :: "string option"
  body :: "json option"

record TSServerEvent =
  event_seq :: int
  event :: string
  event_body :: "json option"

text \<open>A parsed message: a response, an event, or anything with another \<open>type\<close>.\<close>

datatype msg = Response TSServerResponse | Event TSServerEvent | Unknown json

subsection \<open>The client state\<close>

record ChildProcess =
  stdin :: bool
  killed :: bool

datatype 'c effect =
    Resolve int 'c "json option"
  | Reject int 'c string
  | Write int string "json option"
  | WriteRaw string
  | EndStdin
  | Kill string
  | EmitEvent TSServerEvent
  | EmitExit "int option" "string option"
  | Sleep nat

text \<open>
  \<open>Resolve s k b\<close> is the call \<open>pending.resolve(b)\<close> on the entry \<open>k\<close> found under
  key \<open>s\<close>; \<open>Reject s k t\<close> is \<open>pending.reject(new Error(t))\<close>; \<open>Write s cmd a\<close> is
  the line \<open>JSON.stringify({seq: s, type: 'request', command: cmd, arguments: a})\<close>
  written to stdin.  A timer of the runtime (\<open>setTimeout\<close> in an attempt of
  \<open>requestWithRetry\<close>) is its deadline with what its callback closes over: the
  sequence number, the command, the budget and the \<open>reject\<close> of the promise.
\<close>

datatype 'c timer =
  Timer (deadline: nat) (timerSeq: int) (timerCommand: string) (timerBudget: nat)
    (timerReject: 'c)

datatype level = Info | Warn | Error

record 'c client =
  process :: "ChildProcess option"
  sequence :: int
  pendingRequests :: "(int \<times> 'c) list"
  buffer :: string
  openFiles :: "string set"
  now :: nat
  timers :: "'c timer list"
  effects :: "'c effect list"
  logs :: "(level \<times> string) list"
  received :: "msg list"

definition initial :: "'c client" where
  "initial = \<lparr>process = None, sequence = 1, pendingRequests = [], buffer = [],
     openFiles = {}, now = 0, timers = [], effects = [], logs = [], received = []\<rparr>"

subsection \<open>Strings\<close>

definition LF :: char where "LF = CHR 0x0A"
definition CR :: char where "CR = CHR 0x0D"

definition isDigit :: "char \<Rightarrow> bool" where
  "isDigit ch = (48 \<le> (of_char ch :: nat) \<and> (of_char ch :: nat) \<le> 57)"

definition digitVal :: "char \<Rightarrow> nat" where
  "digitVal ch = of_char ch - 48"

text \<open>\<open>parseInt(ds, 10)\<close> on a string of decimal digits.\<close>

definition parseInt :: "string \<Rightarrow> nat" where
  "parseInt ds = foldl (\<lambda>n ch. 10 * n + digitVal ch) 0 ds"

text \<open>\<open>s.includes(sub)\<close>.\<close>

fun str_includes :: "string \<Rightarrow> string \<Rightarrow> bool" where
  "str_includes sub [] = (sub = [])"
| "str_includes sub (x # xs) = (prefix sub (x # xs) \<or> str_includes sub xs)"

subsection \<open>The Framer: \<open>handleData\<close>\<close>

text \<open>
  The regular expression \<open>/^Content-Length: (\d+)\r?\n\r?\n/\<close>, matched at the start
  of the buffer.  The result is \<open>parseInt(headerMatch[1], 10)\<close> and
  \<open>headerMatch[0].length\<close>.
\<close>

fun optCR :: "string \<Rightarrow> string" where
  "optCR [] = []"
| "optCR (x # xs) = (if x = CR then xs else x # xs)"

fun needLF :: "string \<Rightarrow> string option" where
  "needLF [] = None"
| "needLF (x # xs) = (if x = LF then Some xs else None)"

definition matchHeader :: "string \<Rightarrow> (nat \<times> nat) option" where
  "matchHeader buf =
     (if \<not> prefix ''Content-Length: '' buf then None
      else let rest = drop 16 buf; ds = takeWhile isDigit rest in
        if ds = [] then None
        else case needLF (optCR (dropWhile isDigit rest)) of
            None \<Rightarrow> None
          | Some r1 \<Rightarrow> (case needLF (optCR r1) of
                None \<Rightarrow> None
              | Some r2 \<Rightarrow> Some (parseInt ds, length buf - length r2)))"

subsection \<open>The Correlator: \<open>handleMessage\<close>\<close>

text \<open>The text of the error made for a response with \<open>success\<close> false.\<close>

definition failureText :: "string option \<Rightarrow> string" where
  "failureText m =
     (case m of
        None \<Rightarrow> ''Request failed''
      | Some t \<Rightarrow>
          if t = [] then ''Request failed''
          else if str_includes ''Debug Failure'' t
          then ''TSServer Debug Failure: '' @ t
               @ ''. This may be due to file state issues or concurrent operations.''
          else t)"

fun dispatch :: "'c client \<Rightarrow> msg \<Rightarrow> 'c client" where
  "dispatch c (Response r) =
     (case map_of (pendingRequests c) (request_seq r) of
        Some pending \<Rightarrow>
          (let c' = c\<lparr>pendingRequests := AList.delete (request_seq r) (pendingRequests c)\<rparr>
           in if success r
              then c'\<lparr>effects := effects c' @ [Resolve (request_seq r) pending (body r)]\<rparr>
              else c'\<lparr>effects := effects c'
                         @ [Reject (request_seq r) pending (failureText (message r))],
                      logs := logs c' @ [(Error, ''TSServer request failed'')]\<rparr>)
      | None \<Rightarrow> c\<lparr>logs := logs c
          @ [(Warn, ''TSServer response received for unknown request'')]\<rparr>)"
| "dispatch c (Event e) = c\<lparr>effects := effects c @ [EmitEvent e]\<rparr>"
| "dispatch c (Unknown j) =
     c\<lparr>logs := logs c @ [(Warn, ''TSServer unknown message type received'')]\<rparr>"

definition handleMessage :: "'c client \<Rightarrow> msg \<Rightarrow> 'c client" where
  "handleMessage c m = dispatch (c\<lparr>received := received c @ [m]\<rparr>) m"

text \<open>
  One turn of the \<open>while (true)\<close> loop of \<open>handleData\<close>: \<open>None\<close> is \<open>break\<close>.
  \<open>parse\<close> is \<open>JSON.parse\<close> followed by the reading of the fields; \<open>None\<close> is the
  exception that the \<open>catch\<close> around it takes.
\<close>

definition frameStep :: "(string \<Rightarrow> msg option) \<Rightarrow> 'c client \<Rightarrow> 'c client option" where
  "frameStep parse c =
     (case matchHeader (buffer c) of
        None \<Rightarrow> None
      | Some (contentLength, headerLength) \<Rightarrow>
          if length (buffer c) < headerLength + contentLength then None
          else
            let content = take contentLength (drop headerLength (buffer c));
                c' = c\<lparr>buffer := drop (headerLength + contentLength) (buffer c)\<rparr>
            in Some (case parse content of
                  Some m \<Rightarrow> handleMessage c' m
                | None \<Rightarrow> c'\<lparr>logs := logs c'
                     @ [(Warn, ''Failed to parse TSServer Content-Length message'')]\<rparr>))"

lemma matchHeader_bounds:
  assumes "matchHeader buf = Some (n, h)"
  shows "18 \<le> h" and "h \<le> length buf"
proof -
  from assms have p: "prefix ''Content-Length: '' buf"
    by (auto simp: matchHeader_def split: if_splits)
  then obtain rest where buf: "buf = ''Content-Length: '' @ rest"
    by (auto simp: prefix_def)
  from assms buf obtain r1 r2 where
    ds: "takeWhile isDigit rest \<noteq> []" and
    r1: "needLF (optCR (dropWhile isDigit rest)) = Some r1" and
    r2: "needLF (optCR r1) = Some r2" and
    h: "h = length buf - length r2"
    by (auto simp: matchHeader_def Let_def split: if_splits option.splits)
  have optCR_len: "\<And>xs. length (optCR xs) \<le> length xs"
    by (case_tac xs) auto
  have needLF_len: "\<And>xs ys. needLF xs = Some ys \<Longrightarrow> Suc (length ys) = length xs"
    by (case_tac xs) (auto split: if_splits)
  have l1: "Suc (length r1) \<le> length (dropWhile isDigit rest)"
    using needLF_len[OF r1] optCR_len[of "dropWhile isDigit rest"] by simp
  have l2: "Suc (length r2) \<le> length r1"
    using needLF_len[OF r2] optCR_len[of r1] by simp
  have l3: "length (takeWhile isDigit rest) + length (dropWhile isDigit rest) = length rest"
    by (metis length_append takeWhile_dropWhile_id)
  have l4: "1 \<le> length (takeWhile isDigit rest)"
    using ds by (cases "takeWhile isDigit rest") auto
  have l5: "length buf = 16 + length rest"
    using buf by simp
  show "18 \<le> h" using h l1 l2 l3 l4 l5 by linarith
  show "h \<le> length buf" using h by simp
qed

lemma buffer_handleMessage [simp]: "buffer (handleMessage c m) = buffer c"
  by (cases m) (auto simp: handleMessage_def Let_def split: option.splits)

lemma frameStep_shrinks:
  assumes "frameStep parse c = Some c'"
  shows "length (buffer c') < length (buffer c)"
proof -
  from assms obtain n h where m: "matchHeader (buffer c) = Some (n, h)"
    and le: "h + n \<le> length (buffer c)"
    and b: "buffer c' = drop (h + n) (buffer c)"
    by (auto simp: frameStep_def Let_def split: option.splits if_splits)
  from matchHeader_bounds(1)[OF m] le b show ?thesis by simp
qed

function drain :: "(string \<Rightarrow> msg option) \<Rightarrow> 'c client \<Rightarrow> 'c client" where
  "drain parse c = (case frameStep parse c of None \<Rightarrow> c | Some c' \<Rightarrow> drain parse c')"
  by pat_completeness auto
termination
  by (relation "measure (\<lambda>(parse, c). length (buffer c))") (auto dest: frameStep_shrinks)

declare drain.simps [simp del]

definition handleData :: "(string \<Rightarrow> msg option) \<Rightarrow> 'c client \<Rightarrow> string \<Rightarrow> 'c client" where
  "handleData parse c data = drain parse (c\<lparr>buffer := buffer c @ data\<rparr>)"

subsection \<open>Decimal numerals and frames on the wire\<close>

text \<open>The decimal digits of a number, as the template literals of the source print it.\<close>

definition digitChar :: "nat \<Rightarrow> char" where
  "digitChar d = ''0123456789'' ! d"

fun decimal :: "nat \<Rightarrow> string" where
  "decimal n = (if n < 10 then [digitChar n] else decimal (n div 10) @ [digitChar (n mod 10)])"

declare decimal.simps [simp del]

text \<open>
  The header line of an inbound frame, each of the two line ends with or without a
  carriage return.
\<close>

definition frameHeader :: "bool \<Rightarrow> bool \<Rightarrow> nat \<Rightarrow> string" where
  "frameHeader cr1 cr2 n =
     ''Content-Length: '' @ decimal n
     @ (if cr1 then [CR] else []) @ [LF] @ (if cr2 then [CR] else []) @ [LF]"

text \<open>
  \<open>frame\<close> is a header followed by as many string units of content as the header says:
  the length is that of the string, which is how \<open>handleData\<close> counts
  (\<open>buffer.length\<close>, \<open>slice\<close>).
\<close>

definition frame :: "bool \<times> bool \<times> string \<Rightarrow> string" where
  "frame f = (case f of (cr1, cr2, content) \<Rightarrow> frameHeader cr1 cr2 (length content) @ content)"

text \<open>
  The external process counts bytes.  Its output is decoded before \<open>handleData\<close> gets
  it (\<open>this.process.stdout.setEncoding('utf8')\<close> in \<open>start\<close>), and a string unit
  may stand for more than one byte.  In this theory a character is a string unit with a
  code from 0 to 255, which UTF-8 writes in one byte up to 127 and in two bytes from 128
  on.  \<open>wireFrame\<close> is the decoded text of a frame as the external process writes it,
  the header giving the number of bytes of the content; for a content of ASCII
  characters it is \<open>frame\<close>.
\<close>

definition utf8Length :: "string \<Rightarrow> nat" where
  "utf8Length s = sum_list (map (\<lambda>ch. if (of_char ch :: nat) < 128 then 1 else 2) s)"

definition wireFrame :: "bool \<times> bool \<times> string \<Rightarrow> string" where
  "wireFrame f =
     (case f of (cr1, cr2, content) \<Rightarrow> frameHeader cr1 cr2 (utf8Length content) @ content)"

subsection \<open>Notifications and the File Session Tracker\<close>

text \<open>The guard \<open>!this.process || !this.process.stdin\<close>, negated.\<close>

definition started :: "'c client \<Rightarrow> bool" where
  "started c = (case process c of None \<Rightarrow> False | Some p \<Rightarrow> stdin p)"

definition notify :: "string \<Rightarrow> json option \<Rightarrow> 'c client \<Rightarrow> string + 'c client" where
  "notify cmd args c =
     (if \<not> started c then Inl ''TSServer not started''
      else Inr (c\<lparr>sequence := sequence c + 1,
                  effects := effects c @ [Write (sequence c) cmd args]\<rparr>))"

definition fileArgs :: "string \<Rightarrow> json option" where
  "fileArgs normalizedPath = Some (JObj [(''file'', JStr normalizedPath)])"

text \<open>
  \<open>openFile\<close> up to its \<open>await\<close>: the path is made canonical and looked up, and
  if it is not in the set the \<open>open\<close> notification is written.  The result is the
  error that \<open>notify\<close> throws, or the state with what the call does when it resumes:
  \<open>None\<close> when it has returned already (the file was open), \<open>Some\<close> of the path
  it will add to the set.
\<close>

definition openFileBegin ::
  "(string \<Rightarrow> string) \<Rightarrow> string \<Rightarrow> 'c client \<Rightarrow> string + ('c client \<times> string option)" where
  "openFileBegin resolve file c =
     (let normalizedPath = resolve file in
      if normalizedPath \<in> openFiles c then Inr (c, None)
      else case notify ''open'' (fileArgs normalizedPath) c of
          Inl e \<Rightarrow> Inl e
        | Inr c' \<Rightarrow> Inr (c', Some normalizedPath))"

text \<open>\<open>openFile\<close> after its \<open>await\<close>: \<open>this.openFiles.add(normalizedPath)\<close>.\<close>

definition openFileEnd :: "string option \<Rightarrow> 'c client \<Rightarrow> 'c client" where
  "openFileEnd resumes c =
     (case resumes of
        None \<Rightarrow> c
      | Some normalizedPath \<Rightarrow> c\<lparr>openFiles := insert normalizedPath (openFiles c)\<rparr>)"

text \<open>A call of \<open>openFile\<close> that resumes before anything else runs.\<close>

definition openFile :: "(string \<Rightarrow> string) \<Rightarrow> string \<Rightarrow> 'c client \<Rightarrow> string + 'c client" where
  "openFile resolve file c =
     (case openFileBegin resolve file c of
        Inl e \<Rightarrow> Inl e
      | Inr (c', resumes) \<Rightarrow> Inr (openFileEnd resumes c'))"

text \<open>\<open>closeFile\<close> in the same way: \<open>this.openFiles.delete(normalizedPath)\<close> comes
  after the \<open>await\<close>.\<close>

definition closeFileBegin ::
  "(string \<Rightarrow> string) \<Rightarrow> string \<Rightarrow> 'c client \<Rightarrow> string + ('c client \<times> string option)" where
  "closeFileBegin resolve file c =
     (let normalizedPath = resolve file in
      if normalizedPath \<notin> openFiles c then Inr (c, None)
      else case notify ''close'' (fileArgs normalizedPath) c of
          Inl e \<Rightarrow> Inl e
        | Inr c' \<Rightarrow> Inr (c', Some normalizedPath))"

definition closeFileEnd :: "string option \<Rightarrow> 'c client \<Rightarrow> 'c client" where
  "closeFileEnd resumes c =
     (case resumes of
        None \<Rightarrow> c
      | Some normalizedPath \<Rightarrow> c\<lparr>openFiles := openFiles c - {normalizedPath}\<rparr>)"

definition closeFile :: "(string \<Rightarrow> string) \<Rightarrow> string \<Rightarrow> 'c client \<Rightarrow> string + 'c client" where
  "closeFile resolve file c =
     (case closeFileBegin resolve file c of
        Inl e \<Rightarrow> Inl e
      | Inr (c', resumes) \<Rightarrow> Inr (closeFileEnd resumes c'))"

subsection \<open>One attempt of a request, and its timer\<close>

definition timeoutFor :: "string \<Rightarrow> nat" where
  "timeoutFor cmd = (if cmd = ''open'' then 30000 else 15000)"

definition timeoutText :: "string \<Rightarrow> nat \<Rightarrow> string" where
  "timeoutText cmd timeout = ''Request '' @ cmd @ '' timed out after '' @ decimal timeout @ ''ms''"

text \<open>
  \<open>this.process!.stdin!.write\<close> inside the executor of the promise: with no process, or no
  stdin, the property access throws a \<open>TypeError\<close>, which rejects the promise (the text
  is the engine's).
\<close>

definition propertyOfNull :: "string \<Rightarrow> string" where
  "propertyOfNull name =
     ''Cannot read properties of null (reading '' @ [CHR 0x27] @ name @ [CHR 0x27] @ '')''"

definition executorThrows :: "'c client \<Rightarrow> string option" where
  "executorThrows c =
     (case process c of
        None \<Rightarrow> Some (propertyOfNull ''stdin'')
      | Some p \<Rightarrow> if stdin p then None else Some (propertyOfNull ''write''))"

text \<open>
  The body of the \<open>for\<close> loop of \<open>requestWithRetry\<close> up to the \<open>await\<close>:
  \<open>seq = this.sequence++\<close>, then the executor: the entry \<open>k\<close> (the \<open>resolve\<close> and
  \<open>reject\<close> of the new promise) is stored under \<open>seq\<close>, the request is written and the
  timer is armed.  The second component is the error the executor throws, if it does.
\<close>

definition sendAttempt :: "'c \<Rightarrow> string \<Rightarrow> json option \<Rightarrow> 'c client \<Rightarrow> 'c client \<times> string option" where
  "sendAttempt k cmd args c =
     (let seq = sequence c;
          c1 = c\<lparr>sequence := seq + 1,
                 pendingRequests := AList.update seq k (pendingRequests c)\<rparr>
      in case executorThrows c of
           Some e \<Rightarrow> (c1, Some e)
         | None \<Rightarrow>
             (let timeout = timeoutFor cmd
              in (c1\<lparr>effects := effects c1 @ [Write seq cmd args],
                     timers := timers c1 @ [Timer (now c1 + timeout) seq cmd timeout k]\<rparr>,
                  None)))"

text \<open>The callback of the timer.\<close>

definition onTimeout :: "'c client \<Rightarrow> 'c timer \<Rightarrow> 'c client" where
  "onTimeout c t =
     (if map_of (pendingRequests c) (timerSeq t) \<noteq> None
      then c\<lparr>pendingRequests := AList.delete (timerSeq t) (pendingRequests c),
             effects := effects c
               @ [Reject (timerSeq t) (timerReject t)
                    (timeoutText (timerCommand t) (timerBudget t))],
             logs := logs c @ [(Error, ''TSServer request timeout'')]\<rparr>
      else c)"

text \<open>
  The runtime lets \<open>d\<close> milliseconds pass: the timers that are due fire in the order of
  their deadlines (those armed first go first among equal deadlines).
\<close>

definition elapse :: "nat \<Rightarrow> 'c client \<Rightarrow> 'c client" where
  "elapse d c =
     (let t = now c + d
      in foldl onTimeout
           (c\<lparr>now := t, timers := filter (\<lambda>x. \<not> deadline x \<le> t) (timers c)\<rparr>)
           (sort_key deadline (filter (\<lambda>x. deadline x \<le> t) (timers c))))"

subsection \<open>The Process Lifecycle Manager\<close>

text \<open>The handler of the child's \<open>exit\<close> event, registered in \<open>start\<close>.\<close>

definition onExit :: "int option \<Rightarrow> string option \<Rightarrow> 'c client \<Rightarrow> 'c client" where
  "onExit code signal c =
     c\<lparr>process := None,
       effects := effects c @ [EmitExit code signal],
       logs := logs c @ [(Info, ''TSServer process exited'')]\<rparr>"

definition exitCommand :: string where
  "exitCommand = ''{\"seq\":0,\"type\":\"request\",\"command\":\"exit\"}'' @ [LF]"

text \<open>
  \<open>stop\<close> up to its \<open>await\<close>: every pending entry is rejected, in the order of the
  \<open>Map\<close>, the map is cleared, and the exit command is written.
\<close>

definition cancelAll :: "'c client \<Rightarrow> 'c client" where
  "cancelAll c =
     c\<lparr>effects := effects c
         @ map (\<lambda>(s, k). Reject s k ''TSServer is shutting down'') (pendingRequests c),
       pendingRequests := []\<rparr>"

definition stopBegin :: "'c client \<Rightarrow> 'c client" where
  "stopBegin c =
     (let c1 = cancelAll c
      in case process c1 of
           None \<Rightarrow> c1\<lparr>openFiles := {}\<rparr>
         | Some p \<Rightarrow>
             if stdin p then c1\<lparr>effects := effects c1 @ [WriteRaw exitCommand, EndStdin]\<rparr>
             else c1)"

text \<open>\<open>stop\<close> after \<open>Promise.race\<close> has settled.\<close>

definition stopEnd :: "'c client \<Rightarrow> 'c client" where
  "stopEnd c =
     (let c1 = (case process c of
                  None \<Rightarrow> c
                | Some p \<Rightarrow>
                    if \<not> killed p
                    then c\<lparr>process := Some (p\<lparr>killed := True\<rparr>),
                           effects := effects c @ [Kill ''SIGKILL'']\<rparr>
                    else c)
      in c1\<lparr>process := None, openFiles := {}\<rparr>)"

definition gracePeriod :: nat where
  "gracePeriod = 3000"

text \<open>
  The whole of \<open>stop\<close>.  \<open>exitAfter\<close> says when, counted from the exit command, the
  child exits by itself, if it does: before the grace period is over the \<open>exit\<close> handler
  wins the race, otherwise the timer does.
\<close>

definition stop :: "(nat \<times> int option \<times> string option) option \<Rightarrow> 'c client \<Rightarrow> 'c client" where
  "stop exitAfter c =
     (case process c of
        None \<Rightarrow> stopBegin c
      | Some p \<Rightarrow>
          (case exitAfter of
             None \<Rightarrow> stopEnd (elapse gracePeriod (stopBegin c))
           | Some (d, code, signal) \<Rightarrow>
               if d < gracePeriod
               then stopEnd (onExit code signal (elapse d (stopBegin c)))
               else stopEnd (elapse gracePeriod (stopBegin c))))"

subsection \<open>Runs of the client\<close>

text \<open>What can happen to a client, one callback or call at a time.\<close>

datatype 'c event =
    Data string
  | Elapse nat
  | ProcessExit "int option" "string option"
  | Attempt 'c string "json option"
  | Notify string "json option"
  | StopBegin
  | StopEnd

fun step :: "(string \<Rightarrow> msg option) \<Rightarrow> 'c client \<Rightarrow> 'c event \<Rightarrow> 'c client" where
  "step parse c (Data d) = handleData parse c d"
| "step parse c (Elapse d) = elapse d c"
| "step parse c (ProcessExit code signal) = onExit code signal c"
| "step parse c (Attempt k cmd args) = fst (sendAttempt k cmd args c)"
| "step parse c (Notify cmd args) = (case notify cmd args c of Inl e \<Rightarrow> c | Inr c' \<Rightarrow> c')"
| "step parse c StopBegin = stopBegin c"
| "step parse c StopEnd = stopEnd c"

definition run :: "(string \<Rightarrow> msg option) \<Rightarrow> 'c client \<Rightarrow> 'c event list \<Rightarrow> 'c client" where
  "run parse c evs = foldl (step parse) c evs"

subsection \<open>The Retry Policy: \<open>requestWithRetry\<close>\<close>

datatype outcome = Resolved "json option" | Rejected string

text \<open>How the promise of the request \<open>s\<close> was settled: the first call of its entry.\<close>

fun settlement :: "int \<Rightarrow> 'c effect list \<Rightarrow> outcome option" where
  "settlement s [] = None"
| "settlement s (Resolve s' k b # es) = (if s' = s then Some (Resolved b) else settlement s es)"
| "settlement s (Reject s' k t # es) = (if s' = s then Some (Rejected t) else settlement s es)"
| "settlement s (e # es) = settlement s es"

datatype result = Returned "json option" | Thrown string | Awaiting

definition retryDelay :: "nat \<Rightarrow> nat" where
  "retryDelay attempt = min (1000 * 2 ^ attempt) 5000"

definition exhaustedText :: "string \<Rightarrow> nat \<Rightarrow> string" where
  "exhaustedText cmd maxRetries =
     ''Request '' @ cmd @ '' failed after '' @ decimal (maxRetries + 1) @ '' attempts''"

text \<open>
  The \<open>for\<close> loop.  \<open>sched attempt\<close> are the events that reach the client while the
  promise of that attempt is awaited; the result is \<open>Awaiting\<close> when they do not settle
  it.  The backoff is the passing of \<open>retryDelay attempt\<close> milliseconds.
\<close>

function retryLoop ::
  "(string \<Rightarrow> msg option) \<Rightarrow> (nat \<Rightarrow> 'c event list) \<Rightarrow> 'c \<Rightarrow> string \<Rightarrow> json option \<Rightarrow> nat
   \<Rightarrow> nat \<Rightarrow> 'c client \<Rightarrow> 'c client \<times> result" where
  "retryLoop parse sched k cmd args maxRetries attempt c =
     (if attempt \<le> maxRetries then
        (let seq = sequence c;
             (c1, thrown) = sendAttempt k cmd args c;
             c2 = (case thrown of Some e \<Rightarrow> c1 | None \<Rightarrow> run parse c1 (sched attempt));
             outcome = (case thrown of
                          Some e \<Rightarrow> Some (Rejected e)
                        | None \<Rightarrow> settlement seq (effects c2))
         in case outcome of
              None \<Rightarrow> (c2, Awaiting)
            | Some (Resolved b) \<Rightarrow> (c2, Returned b)
            | Some (Rejected errorMessage) \<Rightarrow>
                (let isDebugFailure = str_includes ''Debug Failure'' errorMessage;
                     isLastAttempt = (attempt = maxRetries);
                     c3 = c2\<lparr>logs := logs c2 @ [(Warn, ''TSServer request failed'')]\<rparr>
                 in if isDebugFailure \<and> \<not> isLastAttempt then
                      (let delay = retryDelay attempt;
                           c4 = c3\<lparr>effects := effects c3 @ [Sleep delay],
                                  logs := logs c3
                                    @ [(Info, ''Retrying TSServer request after debug failure'')]\<rparr>
                       in retryLoop parse sched k cmd args maxRetries (attempt + 1)
                            (elapse delay c4))
                    else (c3, Thrown errorMessage)))
      else (c\<lparr>logs := logs c @ [(Error, ''TSServer request failed after all retries'')]\<rparr>,
            Thrown (exhaustedText cmd maxRetries)))"
  by pat_completeness auto
termination
  by (relation "measure (\<lambda>(parse, sched, k, cmd, args, maxRetries, attempt, c).
        Suc maxRetries - attempt)") auto

declare retryLoop.simps [simp del]

definition requestWithRetry ::
  "(string \<Rightarrow> msg option) \<Rightarrow> (nat \<Rightarrow> 'c event list) \<Rightarrow> 'c \<Rightarrow> string \<Rightarrow> json option \<Rightarrow> nat
   \<Rightarrow> 'c client \<Rightarrow> 'c client \<times> result" where
  "requestWithRetry parse sched k cmd args maxRetries c =
     (if \<not> started c then (c, Thrown ''TSServer not started'')
      else retryLoop parse sched k cmd args maxRetries 0 c)"

definition request ::
  "(string \<Rightarrow> msg option) \<Rightarrow> (nat \<Rightarrow> 'c event list) \<Rightarrow> 'c \<Rightarrow> string \<Rightarrow> json option
   \<Rightarrow> 'c client \<Rightarrow> 'c client \<times> result" where
  "request parse sched k cmd args c = requestWithRetry parse sched k cmd args 3 c"

subsection \<open>Observations used in the statements\<close>

text \<open>The calls of the entry stored under \<open>s\<close> among the effects.\<close>

fun settles :: "int \<Rightarrow> 'c effect \<Rightarrow> bool" where
  "settles s (Resolve s' k b) = (s' = s)"
| "settles s (Reject s' k t) = (s' = s)"
| "settles s e = False"

definition calls :: "int \<Rightarrow> 'c client \<Rightarrow> 'c effect list" where
  "calls s c = filter (settles s) (effects c)"

text \<open>The request \<open>s\<close> has been issued and its entry is no longer in the map.\<close>

definition gone :: "int \<Rightarrow> 'c client \<Rightarrow> bool" where
  "gone s c = (s < sequence c \<and> map_of (pendingRequests c) s = None)"

text \<open>
  The state of a client whose history is that of the code: the keys of the map are
  sequence numbers already given out, an entry still in the map has not been called,
  and no entry has been called twice.
\<close>

definition consistent :: "'c client \<Rightarrow> bool" where
  "consistent c =
     (distinct (map fst (pendingRequests c))
      \<and> (\<forall>s. (map_of (pendingRequests c) s \<noteq> None \<longrightarrow> s < sequence c \<and> calls s c = [])
            \<and> length (calls s c) \<le> 1
            \<and> (sequence c \<le> s \<longrightarrow> calls s c = [])))"

text \<open>Every timer in the queue belongs to a sequence number already given out.\<close>

definition timersIssued :: "'c client \<Rightarrow> bool" where
  "timersIssued c = (\<forall>t \<in> set (timers c). timerSeq t < sequence c)"

text \<open>A response that echoes the sequence number \<open>s\<close>.\<close>

fun responseFor :: "int \<Rightarrow> msg \<Rightarrow> bool" where
  "responseFor s (Response r) = (request_seq r = s)"
| "responseFor s m = False"

text \<open>The time that passes in a list of events.\<close>

fun elapsed :: "'c event list \<Rightarrow> nat" where
  "elapsed [] = 0"
| "elapsed (Elapse d # evs) = d + elapsed evs"
| "elapsed (e # evs) = elapsed evs"

text \<open>The request \<open>s\<close> waits: its entry is in the map, uncalled, and its one timer is armed.\<close>

definition waiting :: "int \<Rightarrow> 'c \<Rightarrow> string \<Rightarrow> nat \<Rightarrow> nat \<Rightarrow> 'c client \<Rightarrow> bool" where
  "waiting s k cmd budget dl c =
     (map_of (pendingRequests c) s = Some k \<and> calls s c = [] \<and> s < sequence c
      \<and> filter (\<lambda>t. timerSeq t = s) (timers c) = [Timer dl s cmd budget k])"



text \<open>The delays of the backoffs among the effects.\<close>

fun sleeps :: "'c effect list \<Rightarrow> nat list" where
  "sleeps [] = []"
| "sleeps (Sleep d # es) = d # sleeps es"
| "sleeps (e # es) = sleeps es"

text \<open>The state in which the backoff of an attempt begins.\<close>

definition backoff :: "nat \<Rightarrow> 'c client \<Rightarrow> 'c client" where
  "backoff attempt c2 =
     c2\<lparr>effects := effects c2 @ [Sleep (retryDelay attempt)],
        logs := logs c2 @ [(Warn, ''TSServer request failed''),
          (Info, ''Retrying TSServer request after debug failure'')]\<rparr>"

text \<open>A client that can take a request: started, consistent, with nothing in its buffer.\<close>

definition ready :: "'c client \<Rightarrow> bool" where
  "ready c = (started c \<and> consistent c \<and> buffer c = [])"

subsection \<open>Sample values\<close>

definition demoEvent :: TSServerEvent where
  "demoEvent = \<lparr>event_seq = 0, event = ''syntaxDiag'', event_body = None\<rparr>"

definition demoParse :: "string \<Rightarrow> msg option" where
  "demoParse s = (if s = ''{'' then None else Some (Event demoEvent))"

definition demoResponse :: "int \<Rightarrow> bool \<Rightarrow> string option \<Rightarrow> TSServerResponse" where
  "demoResponse s ok m =
     \<lparr>seq = 0, command = ''definition'', request_seq = s, success = ok, message = m,
      body = Some (JStr ''result'')\<rparr>"

definition startedClient :: "string client" where
  "startedClient = initial\<lparr>process := Some \<lparr>stdin = True, killed = False\<rparr>\<rparr>"

text \<open>
  A child that answers every request with a failure: the content of its frames is the
  sequence number it echoes, and \<open>replyParse m\<close> reads it as a failed response with the
  message \<open>m\<close>.
\<close>

definition replyParse :: "string option \<Rightarrow> string \<Rightarrow> msg option" where
  "replyParse m content = Some (Response (demoResponse (int (parseInt content)) False m))"

definition replySchedule :: "nat \<Rightarrow> string event list" where
  "replySchedule i = [Data (frame (True, True, decimal (Suc i)))]"

text \<open>
  A child that answers the first attempt with a failure and exits before the client
  sends anything else.
\<close>

definition exitSchedule :: "nat \<Rightarrow> string event list" where
  "exitSchedule i =
     (if i = 0 then [Data (frame (True, True, decimal 1)), ProcessExit None None] else [])"

definition debugFailure :: string where
  "debugFailure = ''Debug Failure. False expression.''"

definition debugFailureError :: string where
  "debugFailureError = ''TSServer Debug Failure: Debug Failure. False expression.''
     @ ''. This may be due to file state issues or concurrent operations.''"

section \<open>Lemmas\<close>

subsection \<open>Feeding the Framer in chunks\<close>

lemma needLF_optCR_append:
  "needLF (optCR xs) = Some r \<Longrightarrow> needLF (optCR (xs @ d)) = Some (r @ d)"
  by (cases xs; cases "tl xs") (auto simp: CR_def LF_def split: if_splits)

lemma needLF_optCR_length:
  "needLF (optCR xs) = Some r \<Longrightarrow> length r < length xs"
  by (cases xs; cases "tl xs") (auto split: if_splits)

lemma takeWhile_append_stop:
  "dropWhile P xs \<noteq> [] \<Longrightarrow>
   takeWhile P (xs @ d) = takeWhile P xs \<and> dropWhile P (xs @ d) = dropWhile P xs @ d"
  by (induction xs) auto

lemma matchHeader_SomeD:
  assumes "matchHeader buf = Some (n, h)"
  obtains rest r1 r2 where
    "buf = ''Content-Length: '' @ rest"
    "takeWhile isDigit rest \<noteq> []"
    "needLF (optCR (dropWhile isDigit rest)) = Some r1"
    "needLF (optCR r1) = Some r2"
    "n = parseInt (takeWhile isDigit rest)"
    "h = length buf - length r2"
    "length r2 < length rest"
proof -
  from assms have "prefix ''Content-Length: '' buf"
    by (auto simp: matchHeader_def split: if_splits)
  then obtain rest where buf: "buf = ''Content-Length: '' @ rest"
    by (auto simp: prefix_def)
  from assms buf obtain r1 r2 where
    ds: "takeWhile isDigit rest \<noteq> []" and
    r1: "needLF (optCR (dropWhile isDigit rest)) = Some r1" and
    r2: "needLF (optCR r1) = Some r2" and
    n: "n = parseInt (takeWhile isDigit rest)" and
    h: "h = length buf - length r2"
    by (auto simp: matchHeader_def Let_def split: if_splits option.splits)
  have "length r2 < length r1"
    by (rule needLF_optCR_length[OF r2])
  also have "length r1 < length (dropWhile isDigit rest)"
    by (rule needLF_optCR_length[OF r1])
  also have "\<dots> \<le> length rest"
    by (rule length_dropWhile_le)
  finally have "length r2 < length rest" .
  with buf ds r1 r2 n h show ?thesis by (rule that)
qed

lemma matchHeader_append:
  assumes "matchHeader buf = Some (n, h)"
  shows "matchHeader (buf @ d) = Some (n, h)"
proof -
  from assms obtain rest r1 r2 where
    buf: "buf = ''Content-Length: '' @ rest" and
    ds: "takeWhile isDigit rest \<noteq> []" and
    r1: "needLF (optCR (dropWhile isDigit rest)) = Some r1" and
    r2: "needLF (optCR r1) = Some r2" and
    n: "n = parseInt (takeWhile isDigit rest)" and
    h: "h = length buf - length r2" and
    len: "length r2 < length rest"
    by (rule matchHeader_SomeD)
  from r1 have ne: "dropWhile isDigit rest \<noteq> []"
    by (cases "dropWhile isDigit rest") auto
  note tw = takeWhile_append_stop[OF ne, of d]
  show ?thesis
    using ds n h tw needLF_optCR_append[OF r1, of d] needLF_optCR_append[OF r2, of d] len
    by (simp add: matchHeader_def buf Let_def)
qed

lemma handleMessage_buffer_update:
  "handleMessage (c\<lparr>buffer := b\<rparr>) m = (handleMessage c m)\<lparr>buffer := b\<rparr>"
  by (cases m) (auto simp: handleMessage_def Let_def split: option.splits)

lemma frameStep_append:
  assumes "frameStep parse c = Some c'"
  shows "frameStep parse (c\<lparr>buffer := buffer c @ d\<rparr>) = Some (c'\<lparr>buffer := buffer c' @ d\<rparr>)"
proof -
  from assms obtain n h where m: "matchHeader (buffer c) = Some (n, h)"
    and le: "h + n \<le> length (buffer c)"
    by (auto simp: frameStep_def Let_def split: option.splits if_splits)
  from assms m le have c': "c' = (case parse (take n (drop h (buffer c))) of
                  Some m \<Rightarrow> handleMessage (c\<lparr>buffer := drop (h + n) (buffer c)\<rparr>) m
                | None \<Rightarrow> c\<lparr>buffer := drop (h + n) (buffer c), logs := logs c
                     @ [(Warn, ''Failed to parse TSServer Content-Length message'')]\<rparr>)"
    by (auto simp: frameStep_def Let_def split: option.splits if_splits)
  show ?thesis
    using le by (simp add: frameStep_def matchHeader_append[OF m] c' handleMessage_buffer_update
        split: option.splits)
qed

lemma drain_append:
  "drain parse ((drain parse c)\<lparr>buffer := buffer (drain parse c) @ d\<rparr>)
   = drain parse (c\<lparr>buffer := buffer c @ d\<rparr>)"
proof (induction parse c rule: drain.induct)
  case (1 parse c)
  show ?case
  proof (cases "frameStep parse c")
    case None
    then show ?thesis by (simp add: drain.simps[of parse c])
  next
    case (Some c')
    have "drain parse (c\<lparr>buffer := buffer c @ d\<rparr>) = drain parse (c'\<lparr>buffer := buffer c' @ d\<rparr>)"
      by (subst drain.simps) (simp add: frameStep_append[OF Some])
    moreover have "drain parse c = drain parse c'"
      by (subst drain.simps) (simp add: Some)
    ultimately show ?thesis using "1.IH"[OF Some] by simp
  qed
qed

lemma handleData_append:
  "handleData parse (handleData parse c d1) d2 = handleData parse c (d1 @ d2)"
  using drain_append[of parse "c\<lparr>buffer := buffer c @ d1\<rparr>" d2]
  by (simp add: handleData_def)

lemma handleData_chunks:
  "foldl (handleData parse) (handleData parse c d) ds = handleData parse c (d @ concat ds)"
  by (induction ds arbitrary: d) (simp_all add: handleData_append)

lemma frameStep_suffix:
  "frameStep parse c = Some c' \<Longrightarrow> suffix (buffer c') (buffer c)"
  by (auto simp: frameStep_def Let_def suffix_drop split: option.splits if_splits)

lemma drain_suffix: "suffix (buffer (drain parse c)) (buffer c)"
proof (induction parse c rule: drain.induct)
  case (1 parse c)
  show ?case
  proof (cases "frameStep parse c")
    case None
    then show ?thesis by (simp add: drain.simps[of parse c])
  next
    case (Some c')
    have "drain parse c = drain parse c'"
      by (subst drain.simps) (simp add: Some)
    with "1.IH"[OF Some] frameStep_suffix[OF Some] show ?thesis
      by (auto intro: suffix_order.trans)
  qed
qed

subsection \<open>Whole frames\<close>

lemma digit_cases:
  assumes "d < (10::nat)"
  shows "d = 0 \<or> d = 1 \<or> d = 2 \<or> d = 3 \<or> d = 4 \<or> d = 5 \<or> d = 6 \<or> d = 7 \<or> d = 8 \<or> d = 9"
  using assms by arith

lemma isDigit_digitChar: "d < 10 \<Longrightarrow> isDigit (digitChar d)"
  using digit_cases[of d] by (auto simp: isDigit_def digitChar_def)

lemma digitVal_digitChar: "d < 10 \<Longrightarrow> digitVal (digitChar d) = d"
  using digit_cases[of d] by (auto simp: digitVal_def digitChar_def)

lemma decimal_digits: "\<forall>ch \<in> set (decimal n). isDigit ch"
  by (induction n rule: decimal.induct) (subst decimal.simps, simp add: isDigit_digitChar)

lemma decimal_nonempty: "decimal n \<noteq> []"
  by (subst decimal.simps) simp

lemma parseInt_snoc: "parseInt (ds @ [ch]) = 10 * parseInt ds + digitVal ch"
  by (simp add: parseInt_def)

lemma parseInt_decimal: "parseInt (decimal n) = n"
proof (induction n rule: decimal.induct)
  case (1 n)
  show ?case
  proof (cases "n < 10")
    case True
    then show ?thesis by (subst decimal.simps) (simp add: parseInt_def digitVal_digitChar)
  next
    case False
    with 1 show ?thesis
      by (subst decimal.simps) (simp add: parseInt_snoc digitVal_digitChar)
  qed
qed

lemma not_isDigit_CR_LF: "\<not> isDigit CR" "\<not> isDigit LF"
  by (simp_all add: isDigit_def CR_def LF_def)

lemma takeWhile_decimal:
  "\<not> isDigit x \<Longrightarrow> takeWhile isDigit (decimal n @ x # xs) = decimal n"
  using decimal_digits[of n] by (simp add: takeWhile_append)

lemma dropWhile_decimal:
  "\<not> isDigit x \<Longrightarrow> dropWhile isDigit (decimal n @ x # xs) = x # xs"
  using decimal_digits[of n] by (simp add: dropWhile_append)

lemma matchHeader_frameHeader:
  "matchHeader (frameHeader cr1 cr2 n @ rest) = Some (n, length (frameHeader cr1 cr2 n))"
proof -
  have ne: "CR \<noteq> LF" by (simp add: CR_def LF_def)
  show ?thesis
    using ne
    by (cases cr1; cases cr2)
      (simp_all add: matchHeader_def frameHeader_def Let_def decimal_nonempty parseInt_decimal
        takeWhile_decimal dropWhile_decimal not_isDigit_CR_LF)
qed

lemma frameStep_frame:
  "frameStep parse (c\<lparr>buffer := frame (cr1, cr2, content) @ rest\<rparr>)
   = Some (case parse content of
        Some m \<Rightarrow> handleMessage (c\<lparr>buffer := rest\<rparr>) m
      | None \<Rightarrow> c\<lparr>buffer := rest, logs := logs c
           @ [(Warn, ''Failed to parse TSServer Content-Length message'')]\<rparr>)"
  using matchHeader_frameHeader[of cr1 cr2 "length content" "content @ rest"]
  by (simp add: frameStep_def frame_def split: option.splits)

lemma drain_frame:
  "drain parse (c\<lparr>buffer := frame (cr1, cr2, content) @ rest\<rparr>)
   = drain parse (case parse content of
        Some m \<Rightarrow> handleMessage (c\<lparr>buffer := rest\<rparr>) m
      | None \<Rightarrow> c\<lparr>buffer := rest, logs := logs c
           @ [(Warn, ''Failed to parse TSServer Content-Length message'')]\<rparr>)"
  by (subst drain.simps) (simp add: frameStep_frame)

lemma drain_empty: "buffer c = [] \<Longrightarrow> drain parse c = c"
  by (subst drain.simps) (simp add: frameStep_def matchHeader_def)

lemma received_handleMessage: "received (handleMessage c m) = received c @ [m]"
  by (cases m) (auto simp: handleMessage_def Let_def split: option.splits)

lemma drain_frames:
  "buffer (drain parse (c\<lparr>buffer := concat (map frame fs)\<rparr>)) = []
   \<and> received (drain parse (c\<lparr>buffer := concat (map frame fs)\<rparr>))
     = received c @ List.map_filter (\<lambda>f. parse (snd (snd f))) fs"
proof (induction fs arbitrary: c)
  case Nil
  then show ?case by (simp add: drain_empty List.map_filter_simps)
next
  case (Cons f fs)
  obtain cr1 cr2 content where f: "f = (cr1, cr2, content)" by (cases f)
  show ?case
  proof (cases "parse content")
    case None
    have sw: "\<And>l b. c\<lparr>logs := l, buffer := b\<rparr> = c\<lparr>buffer := b, logs := l\<rparr>"
      by simp
    from None show ?thesis
      using Cons.IH[of "c\<lparr>logs := logs c @ [(Warn, ''Failed to parse TSServer Content-Length message'')]\<rparr>"]
      unfolding sw by (simp add: f drain_frame List.map_filter_simps)
  next
    case (Some m)
    then show ?thesis
      using Cons.IH[of "handleMessage c m"]
      by (simp add: f drain_frame List.map_filter_simps received_handleMessage
          handleMessage_buffer_update)
  qed
qed

subsection \<open>Responses and pending requests\<close>

lemma str_includes_sublist: "str_includes sub s = sublist sub s"
  by (induction s) (simp_all add: sublist_Cons_right)

lemma str_includes_failureText: "str_includes t (failureText (Some t))"
  using sublist_appendI[of t "''TSServer Debug Failure: ''"
       "''. This may be due to file state issues or concurrent operations.''"]
  by (simp add: failureText_def str_includes_sublist)

lemma handleMessage_Response_pending:
  assumes "map_of (pendingRequests c) (request_seq r) = Some k"
  shows "handleMessage c (Response r)
         = c\<lparr>received := received c @ [Response r],
             pendingRequests := AList.delete (request_seq r) (pendingRequests c),
             effects := effects c
               @ [if success r then Resolve (request_seq r) k (body r)
                  else Reject (request_seq r) k (failureText (message r))],
             logs := logs c @ (if success r then [] else [(Error, ''TSServer request failed'')])\<rparr>"
  using assms by (simp add: handleMessage_def Let_def)

lemma handleMessage_Response_unknown:
  assumes "map_of (pendingRequests c) (request_seq r) = None"
  shows "handleMessage c (Response r)
         = c\<lparr>received := received c @ [Response r],
             logs := logs c @ [(Warn, ''TSServer response received for unknown request'')]\<rparr>"
  using assms by (simp add: handleMessage_def)

lemma map_of_delete_other:
  "s' \<noteq> s \<Longrightarrow> map_of (AList.delete s al) s' = map_of al s'"
  by (simp add: AList.delete_conv)

lemma responses_settled:
  assumes "distinct (map request_seq rs)"
    and "\<forall>r \<in> set rs. map_of (pendingRequests c) (request_seq r) \<noteq> None"
  shows "effects (foldl handleMessage c (map Response rs))
         = effects c @ map (\<lambda>r.
             if success r
             then Resolve (request_seq r) (the (map_of (pendingRequests c) (request_seq r))) (body r)
             else Reject (request_seq r) (the (map_of (pendingRequests c) (request_seq r)))
                    (failureText (message r))) rs
       \<and> pendingRequests (foldl handleMessage c (map Response rs))
         = filter (\<lambda>e. fst e \<notin> request_seq ` set rs) (pendingRequests c)"
  using assms
proof (induction rs arbitrary: c)
  case Nil
  then show ?case by simp
next
  case (Cons r rs)
  from Cons.prems obtain k where k: "map_of (pendingRequests c) (request_seq r) = Some k"
    by auto
  let ?c = "handleMessage c (Response r)"
  have p: "pendingRequests ?c = AList.delete (request_seq r) (pendingRequests c)"
    and e: "effects ?c = effects c
               @ [if success r then Resolve (request_seq r) k (body r)
                  else Reject (request_seq r) k (failureText (message r))]"
    by (simp_all add: handleMessage_Response_pending[OF k])
  have other: "map_of (pendingRequests ?c) (request_seq r') = map_of (pendingRequests c) (request_seq r')"
    if "r' \<in> set rs" for r'
  proof -
    from Cons.prems(1) have "request_seq r \<notin> request_seq ` set rs"
      by simp
    with that have "request_seq r' \<noteq> request_seq r"
      by (metis imageI)
    then show ?thesis
      by (simp add: p map_of_delete_other)
  qed
  have d: "distinct (map request_seq rs)"
    using Cons.prems(1) by simp
  have a: "\<forall>r' \<in> set rs. map_of (pendingRequests ?c) (request_seq r') \<noteq> None"
    using Cons.prems(2) other by simp
  have f: "filter (\<lambda>e. fst e \<notin> request_seq ` set rs) (AList.delete (request_seq r) (pendingRequests c))
        = filter (\<lambda>e. fst e \<notin> request_seq ` set (r # rs)) (pendingRequests c)"
    by (auto simp: AList.delete_eq intro: filter_cong)
  show ?case
    using Cons.IH[OF d a] other k
    by (simp add: e p f)
qed

subsection \<open>One sequence number through the callbacks\<close>

lemma frameStep_cases:
  assumes "frameStep parse c = Some c'"
  obtains b m where "c' = handleMessage (c\<lparr>buffer := b\<rparr>) m"
  | b l where "c' = c\<lparr>buffer := b, logs := l\<rparr>"
  using assms
  by (auto simp: frameStep_def Let_def split: option.splits if_splits prod.splits)

lemma drain_invariant:
  assumes "\<And>c c'. I c \<Longrightarrow> frameStep parse c = Some c' \<Longrightarrow> I c'"
    and "I c"
  shows "I (drain parse c)"
  using assms
proof (induction parse c rule: drain.induct)
  case (1 parse c)
  show ?case
  proof (cases "frameStep parse c")
    case None
    with "1.prems"(2) show ?thesis by (simp add: drain.simps[of parse c])
  next
    case (Some c')
    have c': "I c'" using "1.prems"(1)[OF "1.prems"(2) Some] .
    have "I (drain parse c')"
    proof (rule "1.IH"[OF Some])
      fix x x' assume "I x" "frameStep parse x = Some x'"
      then show "I x'" by (rule "1.prems"(1))
    next
      show "I c'" by (rule c')
    qed
    with Some show ?thesis by (simp add: drain.simps[of parse c])
  qed
qed

lemma calls_append [simp]:
  "calls s (c\<lparr>effects := effects c @ es\<rparr>) = calls s c @ filter (settles s) es"
  by (simp add: calls_def)

lemma map_of_delete_same [simp]: "map_of (AList.delete s al) s = None"
  by (simp add: AList.delete_conv)

lemma map_of_delete_neq: "s' \<noteq> s \<Longrightarrow> map_of (AList.delete s al) s' = map_of al s'"
  by (simp add: AList.delete_conv)

text \<open>Once gone, never called again.\<close>

lemma gone_dispatch:
  assumes "gone s c"
  shows "gone s (handleMessage c m) \<and> calls s (handleMessage c m) = calls s c"
proof (cases m)
  case (Response r)
  show ?thesis
  proof (cases "request_seq r = s")
    case True
    with assms Response show ?thesis
      by (simp add: gone_def handleMessage_def calls_def)
  next
    case False
    with assms Response show ?thesis
      by (auto simp: gone_def handleMessage_def calls_def Let_def map_of_delete_neq
          split: option.splits)
  qed
next
  case (Event e)
  with assms show ?thesis by (simp add: gone_def handleMessage_def calls_def)
next
  case (Unknown j)
  with assms show ?thesis by (simp add: gone_def handleMessage_def calls_def)
qed

lemma gone_frameStep:
  assumes "gone s c" "frameStep parse c = Some c'"
  shows "gone s c' \<and> calls s c' = calls s c"
proof -
  from assms(2) show ?thesis
  proof (cases rule: frameStep_cases)
    case (1 b m)
    have "gone s (c\<lparr>buffer := b\<rparr>)" using assms(1) by (simp add: gone_def)
    from gone_dispatch[OF this, of m] 1 show ?thesis by (simp add: calls_def)
  next
    case (2 b l)
    with assms(1) show ?thesis by (simp add: gone_def calls_def)
  qed
qed

lemma gone_drain:
  assumes "gone s c"
  shows "gone s (drain parse c) \<and> calls s (drain parse c) = calls s c"
proof -
  let ?I = "\<lambda>x. gone s x \<and> calls s x = calls s c"
  have "?I (drain parse c)"
  proof (rule drain_invariant[where I = ?I])
    show "?I c" using assms by simp
  next
    fix x x' assume "?I x" "frameStep parse x = Some x'"
    then show "?I x'" using gone_frameStep[of s x parse x'] by simp
  qed
  then show ?thesis .
qed

lemma gone_handleData:
  assumes "gone s c"
  shows "gone s (handleData parse c d) \<and> calls s (handleData parse c d) = calls s c"
proof -
  have "gone s (c\<lparr>buffer := buffer c @ d\<rparr>)" using assms by (simp add: gone_def)
  from gone_drain[OF this, of parse] show ?thesis by (simp add: handleData_def calls_def)
qed

lemma gone_onTimeout:
  assumes "gone s c"
  shows "gone s (onTimeout c t) \<and> calls s (onTimeout c t) = calls s c"
proof (cases "timerSeq t = s")
  case True
  with assms show ?thesis by (simp add: gone_def onTimeout_def)
next
  case False
  with assms show ?thesis
    by (auto simp: gone_def onTimeout_def calls_def map_of_delete_neq)
qed

lemma gone_timeouts:
  assumes "gone s c"
  shows "gone s (foldl onTimeout c ts) \<and> calls s (foldl onTimeout c ts) = calls s c"
  using assms
proof (induction ts arbitrary: c)
  case Nil
  then show ?case by simp
next
  case (Cons t ts)
  from gone_onTimeout[OF Cons.prems, of t] Cons.IH[of "onTimeout c t"]
  show ?case by simp
qed

lemma gone_elapse:
  assumes "gone s c"
  shows "gone s (elapse d c) \<and> calls s (elapse d c) = calls s c"
proof -
  let ?c = "c\<lparr>now := now c + d, timers := filter (\<lambda>x. \<not> deadline x \<le> now c + d) (timers c)\<rparr>"
  have "gone s ?c" using assms by (simp add: gone_def)
  from gone_timeouts[OF this] show ?thesis
    by (simp add: elapse_def Let_def calls_def)
qed

lemma gone_onExit:
  assumes "gone s c"
  shows "gone s (onExit code signal c) \<and> calls s (onExit code signal c) = calls s c"
  using assms by (simp add: gone_def onExit_def calls_def)

lemma gone_sendAttempt:
  assumes "gone s c"
  shows "gone s (fst (sendAttempt k cmd args c))
       \<and> calls s (fst (sendAttempt k cmd args c)) = calls s c"
  using assms
  by (auto simp: gone_def sendAttempt_def Let_def calls_def update_conv'
      split: option.splits)

lemma gone_notify:
  assumes "gone s c" "notify cmd args c = Inr c'"
  shows "gone s c' \<and> calls s c' = calls s c"
  using assms by (auto simp: gone_def notify_def calls_def split: if_splits)

lemma map_of_None_keys: "map_of al s = None \<Longrightarrow> \<forall>e \<in> set al. fst e \<noteq> s"
  by (auto simp: map_of_eq_None_iff)

lemma gone_cancelAll:
  assumes "gone s c"
  shows "gone s (cancelAll c) \<and> calls s (cancelAll c) = calls s c"
proof -
  from assms have "map_of (pendingRequests c) s = None"
    by (simp add: gone_def)
  then have "\<forall>e \<in> set (pendingRequests c). fst e \<noteq> s"
    by (rule map_of_None_keys)
  then have "filter (settles s) (map (\<lambda>(s, k). Reject s k ''TSServer is shutting down'')
      (pendingRequests c)) = []"
    by (auto simp: filter_empty_conv)
  with assms show ?thesis
    by (simp add: gone_def cancelAll_def calls_def)
qed

lemma gone_stopBegin:
  assumes "gone s c"
  shows "gone s (stopBegin c) \<and> calls s (stopBegin c) = calls s c"
  using gone_cancelAll[OF assms]
  by (auto simp: stopBegin_def Let_def gone_def calls_def split: option.splits)

lemma gone_stopEnd:
  assumes "gone s c"
  shows "gone s (stopEnd c) \<and> calls s (stopEnd c) = calls s c"
  using assms
  by (auto simp: stopEnd_def Let_def gone_def calls_def split: option.splits)

lemma gone_step:
  assumes "gone s c"
  shows "gone s (step parse c e) \<and> calls s (step parse c e) = calls s c"
proof (cases e)
  case (Notify cmd args)
  then show ?thesis
    using assms gone_notify[OF assms, of cmd args] by (cases "notify cmd args c") simp_all
qed (use assms gone_handleData gone_elapse gone_onExit gone_sendAttempt gone_stopBegin
    gone_stopEnd in simp_all)

lemma gone_run:
  assumes "gone s c"
  shows "gone s (run parse c evs) \<and> calls s (run parse c evs) = calls s c"
  using assms
proof (induction evs arbitrary: c)
  case Nil
  then show ?case by (simp add: run_def)
next
  case (Cons e evs)
  from gone_step[OF Cons.prems, of parse e] Cons.IH[of "step parse c e"]
  show ?case by (simp add: run_def)
qed

text \<open>No entry is called twice.\<close>

lemma consistent_remove:
  assumes "consistent c" "map_of (pendingRequests c) r = Some k" "settles r e"
    "\<And>s. s \<noteq> r \<Longrightarrow> \<not> settles s e"
  shows "consistent (c\<lparr>pendingRequests := AList.delete r (pendingRequests c),
                        effects := effects c @ [e]\<rparr>)"
proof -
  have d: "distinct (map fst (AList.delete r (pendingRequests c)))"
    using assms(1) by (simp add: consistent_def distinct_delete)
  have r: "r < sequence c" "calls r c = []"
    using assms(1,2) by (auto simp: consistent_def)
  have "(map_of (AList.delete r (pendingRequests c)) s \<noteq> None
          \<longrightarrow> s < sequence c \<and> filter (settles s) (effects c @ [e]) = [])
        \<and> length (filter (settles s) (effects c @ [e])) \<le> 1
        \<and> (sequence c \<le> s \<longrightarrow> filter (settles s) (effects c @ [e]) = [])" for s
  proof (cases "s = r")
    case True
    with r assms(3) show ?thesis by (simp add: calls_def)
  next
    case False
    with assms(1) assms(4)[OF False] show ?thesis
      by (simp add: consistent_def calls_def map_of_delete_neq)
  qed
  with d show ?thesis by (simp add: consistent_def calls_def)
qed

lemma consistent_cong:
  assumes "pendingRequests c' = pendingRequests c" "sequence c' = sequence c"
    "effects c' = effects c"
  shows "consistent c' = consistent c"
  using assms by (simp add: consistent_def calls_def)

lemma consistent_quiet:
  assumes "consistent c" "pendingRequests c' = pendingRequests c"
    "sequence c \<le> sequence c'" "\<And>s. calls s c' = calls s c"
  shows "consistent c'"
  using assms unfolding consistent_def by (metis order_trans less_le_trans)

lemma consistent_handleMessage:
  assumes "consistent c"
  shows "consistent (handleMessage c m)"
proof -
  let ?c = "c\<lparr>received := received c @ [m]\<rparr>"
  have c: "consistent ?c" using assms by (simp add: consistent_def calls_def)
  show ?thesis
  proof (cases m)
    case (Response r)
    show ?thesis
    proof (cases "map_of (pendingRequests c) (request_seq r)")
      case None
      with Response show ?thesis
        by (auto simp: handleMessage_def calls_def intro!: consistent_quiet[OF assms])
    next
      case (Some k)
      let ?e = "if success r then Resolve (request_seq r) k (body r)
                else Reject (request_seq r) k (failureText (message r))"
      have "consistent (?c\<lparr>pendingRequests := AList.delete (request_seq r) (pendingRequests ?c),
                        effects := effects ?c @ [?e]\<rparr>)"
        by (rule consistent_remove[OF c]) (use Some in auto)
      moreover have "consistent (handleMessage c m)
          = consistent (?c\<lparr>pendingRequests := AList.delete (request_seq r) (pendingRequests ?c),
                        effects := effects ?c @ [?e]\<rparr>)"
        using Response Some
        by (intro consistent_cong) (simp_all add: handleMessage_def Let_def)
      ultimately show ?thesis by simp
    qed
  next
    case (Event e)
    then show ?thesis
      by (auto simp: handleMessage_def calls_def intro!: consistent_quiet[OF assms])
  next
    case (Unknown j)
    then show ?thesis
      by (auto simp: handleMessage_def calls_def intro!: consistent_quiet[OF assms])
  qed
qed

lemma consistent_frameStep:
  assumes "consistent c" "frameStep parse c = Some c'"
  shows "consistent c'"
  using assms(2)
proof (cases rule: frameStep_cases)
  case (1 b m)
  have "consistent (c\<lparr>buffer := b\<rparr>)" using assms(1) by (simp add: consistent_def calls_def)
  with 1 show ?thesis by (simp add: consistent_handleMessage)
next
  case (2 b l)
  with assms(1) show ?thesis by (simp add: consistent_def calls_def)
qed

lemma consistent_handleData:
  assumes "consistent c"
  shows "consistent (handleData parse c d)"
proof -
  have "consistent (c\<lparr>buffer := buffer c @ d\<rparr>)"
    using assms by (simp add: consistent_def calls_def)
  then show ?thesis
    unfolding handleData_def
    by (rule drain_invariant[where I = consistent, rotated]) (rule consistent_frameStep)
qed

lemma consistent_onTimeout:
  assumes "consistent c"
  shows "consistent (onTimeout c t)"
proof (cases "map_of (pendingRequests c) (timerSeq t)")
  case None
  with assms show ?thesis by (simp add: onTimeout_def)
next
  case (Some k)
  let ?e = "Reject (timerSeq t) (timerReject t) (timeoutText (timerCommand t) (timerBudget t))"
  have "consistent (c\<lparr>pendingRequests := AList.delete (timerSeq t) (pendingRequests c),
                        effects := effects c @ [?e]\<rparr>)"
    by (rule consistent_remove[OF assms Some]) auto
  moreover have "consistent (onTimeout c t)
      = consistent (c\<lparr>pendingRequests := AList.delete (timerSeq t) (pendingRequests c),
                        effects := effects c @ [?e]\<rparr>)"
    using Some by (intro consistent_cong) (simp_all add: onTimeout_def)
  ultimately show ?thesis by simp
qed

lemma consistent_timeouts: "consistent c \<Longrightarrow> consistent (foldl onTimeout c ts)"
  by (induction ts arbitrary: c) (simp_all add: consistent_onTimeout)

lemma consistent_elapse:
  assumes "consistent c"
  shows "consistent (elapse d c)"
proof -
  have "consistent (c\<lparr>now := n, timers := ts\<rparr>)" for n ts
    using assms by (simp add: consistent_def calls_def)
  then show ?thesis by (simp add: elapse_def Let_def consistent_timeouts)
qed

lemma consistent_onExit: "consistent c \<Longrightarrow> consistent (onExit code signal c)"
  by (rule consistent_quiet) (simp_all add: onExit_def calls_def)

lemma consistent_notify:
  assumes "consistent c" "notify cmd args c = Inr c'"
  shows "consistent c'"
  using assms(2)
  by (intro consistent_quiet[OF assms(1)]) (auto simp: notify_def calls_def split: if_splits)

lemma consistent_register:
  assumes "consistent c"
  shows "consistent (c\<lparr>sequence := sequence c + 1,
                        pendingRequests := AList.update (sequence c) k (pendingRequests c)\<rparr>)"
proof -
  let ?c = "c\<lparr>sequence := sequence c + 1,
              pendingRequests := AList.update (sequence c) k (pendingRequests c)\<rparr>"
  have d: "distinct (map fst (pendingRequests ?c))"
    using assms by (simp add: consistent_def distinct_update)
  have "(map_of (pendingRequests ?c) s \<noteq> None \<longrightarrow> s < sequence ?c \<and> calls s ?c = [])
        \<and> length (calls s ?c) \<le> 1
        \<and> (sequence ?c \<le> s \<longrightarrow> calls s ?c = [])" for s
  proof (cases "s = sequence c")
    case True
    with assms show ?thesis by (simp add: consistent_def calls_def)
  next
    case False
    have "(map_of (pendingRequests c) s \<noteq> None \<longrightarrow> s < sequence c \<and> calls s c = [])
        \<and> length (calls s c) \<le> 1 \<and> (sequence c \<le> s \<longrightarrow> calls s c = [])"
      using assms unfolding consistent_def by blast
    with False show ?thesis by (auto simp: calls_def update_conv')
  qed
  with d show ?thesis unfolding consistent_def by blast
qed

lemma consistent_sendAttempt:
  assumes "consistent c"
  shows "consistent (fst (sendAttempt k cmd args c))"
proof -
  let ?c = "c\<lparr>sequence := sequence c + 1,
              pendingRequests := AList.update (sequence c) k (pendingRequests c)\<rparr>"
  have r: "consistent ?c" by (rule consistent_register[OF assms])
  have "consistent (?c\<lparr>effects := effects ?c @ [Write s cmd args], timers := ts\<rparr>)" for s ts
    by (rule consistent_quiet[OF r]) (simp_all add: calls_def)
  with r show ?thesis
    by (simp add: sendAttempt_def Let_def split: option.splits)
qed

lemma filter_key_distinct:
  "distinct (map fst al) \<Longrightarrow> length (filter (\<lambda>e. fst e = s) al) \<le> 1"
  by (induction al) (auto simp: filter_empty_conv image_iff)

lemma calls_cancelAll:
  "calls s (cancelAll c)
   = calls s c @ map (\<lambda>(s, k). Reject s k ''TSServer is shutting down'')
       (filter (\<lambda>e. fst e = s) (pendingRequests c))"
proof -
  have "filter (settles s) (map (\<lambda>(s, k). Reject s k t) al)
        = map (\<lambda>(s, k). Reject s k t) (filter (\<lambda>e. fst e = s) al)" for t al
    by (induction al) auto
  then show ?thesis by (simp add: cancelAll_def calls_def)
qed

lemma consistent_cancelAll:
  assumes "consistent c"
  shows "consistent (cancelAll c)"
proof -
  have "length (calls s (cancelAll c)) \<le> 1 \<and> (sequence c \<le> s \<longrightarrow> calls s (cancelAll c) = [])" for s
  proof (cases "map_of (pendingRequests c) s")
    case None
    then have "filter (\<lambda>e. fst e = s) (pendingRequests c) = []"
      by (auto simp: filter_empty_conv dest: map_of_None_keys)
    with assms show ?thesis by (simp add: calls_cancelAll consistent_def)
  next
    case (Some k)
    with assms have "calls s c = []" "s < sequence c" by (auto simp: consistent_def)
    moreover from assms have "distinct (map fst (pendingRequests c))"
      by (simp add: consistent_def)
    then have "length (filter (\<lambda>e. fst e = s) (pendingRequests c)) \<le> 1"
      by (rule filter_key_distinct)
    ultimately show ?thesis by (simp add: calls_cancelAll)
  qed
  then show ?thesis by (simp add: consistent_def cancelAll_def)
qed

lemma consistent_stopBegin: "consistent c \<Longrightarrow> consistent (stopBegin c)"
  using consistent_cancelAll[of c]
  by (auto simp: stopBegin_def Let_def consistent_def calls_def split: option.splits)

lemma consistent_stopEnd: "consistent c \<Longrightarrow> consistent (stopEnd c)"
  by (auto simp: stopEnd_def Let_def consistent_def calls_def split: option.splits)

lemma consistent_step:
  assumes "consistent c"
  shows "consistent (step parse c e)"
proof (cases e)
  case (Notify cmd args)
  then show ?thesis
    using assms consistent_notify[OF assms, of cmd args] by (cases "notify cmd args c") simp_all
qed (use assms consistent_handleData consistent_elapse consistent_onExit consistent_sendAttempt
    consistent_stopBegin consistent_stopEnd in simp_all)

lemma consistent_run: "consistent c \<Longrightarrow> consistent (run parse c evs)"
  by (induction evs arbitrary: c) (simp_all add: run_def consistent_step)

lemma consistent_initial: "consistent initial"
  by (simp add: consistent_def initial_def calls_def)

lemma filter_key_map_of:
  "distinct (map fst al) \<Longrightarrow> map_of al s = Some k \<Longrightarrow> filter (\<lambda>e. fst e = s) al = [(s, k)]"
proof (induction al)
  case Nil
  then show ?case by simp
next
  case (Cons e al)
  obtain s' k' where e: "e = (s', k')" by (cases e)
  show ?case
  proof (cases "s' = s")
    case True
    with Cons.prems e have "k' = k" and "\<forall>x \<in> set al. fst x \<noteq> s" by auto
    with True e show ?thesis by (simp add: filter_empty_conv)
  next
    case False
    with Cons e show ?thesis by simp
  qed
qed

lemma removal_by_response:
  assumes "map_of (pendingRequests c) (request_seq r) = Some k"
  shows "calls (request_seq r) (handleMessage c (Response r))
         = calls (request_seq r) c
           @ [if success r then Resolve (request_seq r) k (body r)
              else Reject (request_seq r) k (failureText (message r))]
       \<and> map_of (pendingRequests (handleMessage c (Response r))) (request_seq r) = None"
  using assms by (simp add: handleMessage_def Let_def calls_def)

lemma removal_by_timeout:
  assumes "map_of (pendingRequests c) (timerSeq t) = Some k"
  shows "calls (timerSeq t) (onTimeout c t)
         = calls (timerSeq t) c
           @ [Reject (timerSeq t) (timerReject t) (timeoutText (timerCommand t) (timerBudget t))]
       \<and> map_of (pendingRequests (onTimeout c t)) (timerSeq t) = None"
  using assms by (simp add: onTimeout_def calls_def)

lemma removal_by_stop:
  assumes "distinct (map fst (pendingRequests c))" "map_of (pendingRequests c) s = Some k"
  shows "calls s (cancelAll c) = calls s c @ [Reject s k ''TSServer is shutting down'']
       \<and> map_of (pendingRequests (cancelAll c)) s = None"
  using filter_key_map_of[OF assms] by (simp add: calls_cancelAll) (simp add: cancelAll_def)

subsection \<open>Timers\<close>

lemma onTimeout_other:
  assumes "timerSeq t \<noteq> s"
  shows "map_of (pendingRequests (onTimeout c t)) s = map_of (pendingRequests c) s
       \<and> calls s (onTimeout c t) = calls s c"
  using assms by (auto simp: onTimeout_def calls_def map_of_delete_neq)

lemma onTimeout_cong:
  assumes "map_of (pendingRequests a) s = map_of (pendingRequests b) s" "calls s a = calls s b"
  shows "map_of (pendingRequests (onTimeout a t)) s = map_of (pendingRequests (onTimeout b t)) s
       \<and> calls s (onTimeout a t) = calls s (onTimeout b t)"
proof (cases "timerSeq t = s")
  case True
  with assms show ?thesis by (auto simp: onTimeout_def calls_def)
next
  case False
  with assms onTimeout_other[OF False, of a] onTimeout_other[OF False, of b]
  show ?thesis by simp
qed

lemma timeouts_cong:
  assumes "map_of (pendingRequests a) s = map_of (pendingRequests b) s" "calls s a = calls s b"
  shows "map_of (pendingRequests (foldl onTimeout a ts)) s
         = map_of (pendingRequests (foldl onTimeout b ts)) s
       \<and> calls s (foldl onTimeout a ts) = calls s (foldl onTimeout b ts)"
  using assms
proof (induction ts arbitrary: a b)
  case Nil
  then show ?case by simp
next
  case (Cons t ts)
  from onTimeout_cong[OF Cons.prems, of t] Cons.IH[of "onTimeout a t" "onTimeout b t"]
  show ?case by simp
qed

text \<open>For one sequence number, only its own timers matter.\<close>

lemma timeouts_filter:
  "map_of (pendingRequests (foldl onTimeout c ts)) s
   = map_of (pendingRequests (foldl onTimeout c (filter (\<lambda>t. timerSeq t = s) ts))) s
   \<and> calls s (foldl onTimeout c ts)
     = calls s (foldl onTimeout c (filter (\<lambda>t. timerSeq t = s) ts))"
proof (induction ts arbitrary: c)
  case Nil
  then show ?case by simp
next
  case (Cons t ts)
  show ?case
  proof (cases "timerSeq t = s")
    case True
    with Cons.IH[of "onTimeout c t"] show ?thesis by simp
  next
    case False
    from onTimeout_other[OF False, of c]
    have "map_of (pendingRequests (foldl onTimeout (onTimeout c t) (filter (\<lambda>t. timerSeq t = s) ts))) s
         = map_of (pendingRequests (foldl onTimeout c (filter (\<lambda>t. timerSeq t = s) ts))) s
       \<and> calls s (foldl onTimeout (onTimeout c t) (filter (\<lambda>t. timerSeq t = s) ts))
         = calls s (foldl onTimeout c (filter (\<lambda>t. timerSeq t = s) ts))"
      by (intro timeouts_cong) simp_all
    with False Cons.IH[of "onTimeout c t"] show ?thesis by simp
  qed
qed

lemma elapse_view:
  "map_of (pendingRequests (elapse d c)) s
   = map_of (pendingRequests (foldl onTimeout c
       (sort_key deadline (filter (\<lambda>t. deadline t \<le> now c + d \<and> timerSeq t = s) (timers c))))) s
   \<and> calls s (elapse d c)
     = calls s (foldl onTimeout c
       (sort_key deadline (filter (\<lambda>t. deadline t \<le> now c + d \<and> timerSeq t = s) (timers c))))"
proof -
  let ?c = "c\<lparr>now := now c + d, timers := filter (\<lambda>x. \<not> deadline x \<le> now c + d) (timers c)\<rparr>"
  let ?due = "sort_key deadline (filter (\<lambda>x. deadline x \<le> now c + d) (timers c))"
  have f: "filter (\<lambda>t. timerSeq t = s) ?due
        = sort_key deadline (filter (\<lambda>t. deadline t \<le> now c + d \<and> timerSeq t = s) (timers c))"
    by (simp add: filter_sort)
  have "map_of (pendingRequests ?c) s = map_of (pendingRequests c) s" "calls s ?c = calls s c"
    by (simp_all add: calls_def)
  from timeouts_cong[OF this] timeouts_filter[of ?c ?due s]
  show ?thesis
    unfolding f by (simp add: elapse_def Let_def)
qed

lemma sendAttempt_started:
  assumes "started c"
  shows "sendAttempt k cmd args c
         = (c\<lparr>sequence := sequence c + 1,
              pendingRequests := AList.update (sequence c) k (pendingRequests c),
              effects := effects c @ [Write (sequence c) cmd args],
              timers := timers c
                @ [Timer (now c + timeoutFor cmd) (sequence c) cmd (timeoutFor cmd) k]\<rparr>, None)"
  using assms
  by (auto simp: sendAttempt_def started_def executorThrows_def Let_def split: option.splits)

subsection \<open>A request that waits for its response\<close>

lemma handleMessage_other:
  assumes "\<not> responseFor s m"
  shows "map_of (pendingRequests (handleMessage c m)) s = map_of (pendingRequests c) s
       \<and> calls s (handleMessage c m) = calls s c"
  using assms
  by (cases m) (auto simp: handleMessage_def Let_def calls_def map_of_delete_neq split: option.splits)

lemma handleMessage_frame [simp]:
  "sequence (handleMessage c m) = sequence c" "timers (handleMessage c m) = timers c"
  "now (handleMessage c m) = now c"
  by (cases m; simp add: handleMessage_def Let_def split: option.splits)+

lemma frameStep_view:
  assumes "frameStep parse c = Some c'"
  shows "sequence c' = sequence c \<and> timers c' = timers c \<and> now c' = now c
       \<and> (\<exists>ms. received c' = received c @ ms
             \<and> ((\<forall>m \<in> set ms. \<not> responseFor s m) \<longrightarrow>
                  map_of (pendingRequests c') s = map_of (pendingRequests c) s
                  \<and> calls s c' = calls s c))"
  using assms
proof (cases rule: frameStep_cases)
  case (1 b m)
  have "received c' = received c @ [m]"
    using 1 by (simp add: received_handleMessage)
  moreover have "\<not> responseFor s m \<Longrightarrow>
      map_of (pendingRequests c') s = map_of (pendingRequests c) s \<and> calls s c' = calls s c"
    using handleMessage_other[of s m "c\<lparr>buffer := b\<rparr>"] 1 by (simp add: calls_def)
  ultimately show ?thesis using 1 by auto
next
  case (2 b l)
  then show ?thesis by (simp add: calls_def)
qed

lemma drain_view:
  "sequence (drain parse c) = sequence c \<and> timers (drain parse c) = timers c
   \<and> now (drain parse c) = now c
   \<and> (\<exists>ms. received (drain parse c) = received c @ ms
         \<and> ((\<forall>m \<in> set ms. \<not> responseFor s m) \<longrightarrow>
              map_of (pendingRequests (drain parse c)) s = map_of (pendingRequests c) s
              \<and> calls s (drain parse c) = calls s c))"
proof (induction parse c rule: drain.induct)
  case (1 parse c)
  show ?case
  proof (cases "frameStep parse c")
    case None
    then show ?thesis by (simp add: drain.simps[of parse c])
  next
    case (Some c')
    have d: "drain parse c = drain parse c'"
      by (subst drain.simps) (simp add: Some)
    from frameStep_view[OF Some, of s] obtain ms1 where
      f: "sequence c' = sequence c" "timers c' = timers c" "now c' = now c"
        "received c' = received c @ ms1"
        "(\<forall>m \<in> set ms1. \<not> responseFor s m) \<longrightarrow>
           map_of (pendingRequests c') s = map_of (pendingRequests c) s \<and> calls s c' = calls s c"
      by blast
    from "1.IH"[OF Some] obtain ms2 where
      g: "sequence (drain parse c') = sequence c'" "timers (drain parse c') = timers c'"
        "now (drain parse c') = now c'"
        "received (drain parse c') = received c' @ ms2"
        "(\<forall>m \<in> set ms2. \<not> responseFor s m) \<longrightarrow>
           map_of (pendingRequests (drain parse c')) s = map_of (pendingRequests c') s
           \<and> calls s (drain parse c') = calls s c'"
      by blast
    have "received (drain parse c) = received c @ (ms1 @ ms2)"
      using f g d by simp
    moreover have "(\<forall>m \<in> set (ms1 @ ms2). \<not> responseFor s m) \<longrightarrow>
           map_of (pendingRequests (drain parse c)) s = map_of (pendingRequests c) s
           \<and> calls s (drain parse c) = calls s c"
      using f g d by auto
    ultimately show ?thesis using f g d by metis
  qed
qed

lemma timers_timeouts [simp]:
  "timers (foldl onTimeout c ts) = timers c" "now (foldl onTimeout c ts) = now c"
  "sequence (foldl onTimeout c ts) = sequence c" "received (foldl onTimeout c ts) = received c"
  by (induction ts arbitrary: c; simp add: onTimeout_def)+

lemma elapse_frame [simp]:
  "timers (elapse d c) = filter (\<lambda>x. \<not> deadline x \<le> now c + d) (timers c)"
  "now (elapse d c) = now c + d" "sequence (elapse d c) = sequence c"
  "received (elapse d c) = received c"
  by (simp_all add: elapse_def Let_def)

lemma received_step: "\<exists>ms. received (step parse c e) = received c @ ms"
proof (cases e)
  case (Data d)
  from drain_view[of parse "c\<lparr>buffer := buffer c @ d\<rparr>" 0] Data show ?thesis
    by (auto simp: handleData_def)
qed (auto simp: onExit_def sendAttempt_def Let_def notify_def stopBegin_def cancelAll_def stopEnd_def
    split: option.splits if_splits)

lemma received_run: "\<exists>ms. received (run parse c evs) = received c @ ms"
proof (induction evs arbitrary: c)
  case Nil
  then show ?case by (simp add: run_def)
next
  case (Cons e evs)
  from received_step[of parse c e] obtain ms1 where "received (step parse c e) = received c @ ms1"
    by blast
  moreover from Cons.IH[of "step parse c e"] obtain ms2 where
    "received (run parse (step parse c e) evs) = received (step parse c e) @ ms2"
    by blast
  ultimately have "received (run parse c (e # evs)) = received c @ (ms1 @ ms2)"
    by (simp add: run_def)
  then show ?case by blast
qed

lemma now_step: "now (step parse c e) = now c + elapsed [e]"
proof (cases e)
  case (Data d)
  from drain_view[of parse "c\<lparr>buffer := buffer c @ d\<rparr>" 0] Data show ?thesis
    by (simp add: handleData_def)
qed (auto simp: onExit_def sendAttempt_def Let_def notify_def stopBegin_def cancelAll_def stopEnd_def
    split: option.splits if_splits)

lemma elapsed_Cons: "elapsed (e # evs) = elapsed [e] + elapsed evs"
  by (cases e) simp_all

lemma elapsed_append: "elapsed (xs @ ys) = elapsed xs + elapsed ys"
proof (induction xs)
  case Nil
  then show ?case by simp
next
  case (Cons e xs)
  have "elapsed ((e # xs) @ ys) = elapsed [e] + elapsed (xs @ ys)"
    using elapsed_Cons[of e "xs @ ys"] by simp
  also have "\<dots> = elapsed [e] + elapsed xs + elapsed ys"
    using Cons.IH by simp
  also have "\<dots> = elapsed (e # xs) + elapsed ys"
    using elapsed_Cons[of e xs] by simp
  finally show ?case .
qed

lemma now_run: "now (run parse c evs) = now c + elapsed evs"
proof (induction evs arbitrary: c)
  case Nil
  then show ?case by (simp add: run_def)
next
  case (Cons e evs)
  have "now (run parse c (e # evs)) = now (step parse c e) + elapsed evs"
    using Cons.IH[of "step parse c e"] by (simp add: run_def)
  then show ?case
    using now_step[of parse c e] elapsed_Cons[of e evs] by simp
qed

lemma filter_commute: "filter P (filter Q xs) = filter Q (filter P xs)"
  by (induction xs) auto

lemma due_own:
  "filter (\<lambda>t. deadline t \<le> n \<and> timerSeq t = s) ts
   = filter (\<lambda>t. deadline t \<le> n) (filter (\<lambda>t. timerSeq t = s) ts)"
  by (induction ts) auto

lemma waiting_elapse:
  assumes "waiting s k cmd budget dl c" "now c + d < dl"
  shows "waiting s k cmd budget dl (elapse d c)"
proof -
  let ?t0 = "Timer dl s cmd budget k"
  from assms(1) have own: "filter (\<lambda>t. timerSeq t = s) (timers c) = [?t0]"
    and p: "map_of (pendingRequests c) s = Some k" "calls s c = []" "s < sequence c"
    by (simp_all add: waiting_def)
  have "filter (\<lambda>t. deadline t \<le> now c + d \<and> timerSeq t = s) (timers c) = []"
    unfolding due_own own using assms(2) by simp
  with elapse_view[of d c s] p
  have v: "map_of (pendingRequests (elapse d c)) s = Some k" "calls s (elapse d c) = []"
    by simp_all
  have "filter (\<lambda>t. timerSeq t = s) (timers (elapse d c))
        = filter (\<lambda>x. \<not> deadline x \<le> now c + d) (filter (\<lambda>t. timerSeq t = s) (timers c))"
    unfolding elapse_frame by (rule filter_commute)
  also have "\<dots> = [?t0]"
    unfolding own using assms(2) by simp
  finally show ?thesis
    using v p by (simp add: waiting_def)
qed

lemma waiting_fires:
  assumes "waiting s k cmd budget dl c" "dl \<le> now c + d"
  shows "map_of (pendingRequests (elapse d c)) s = None
       \<and> calls s (elapse d c) = [Reject s k (timeoutText cmd budget)]"
proof -
  let ?t0 = "Timer dl s cmd budget k"
  from assms(1) have own: "filter (\<lambda>t. timerSeq t = s) (timers c) = [?t0]"
    and p: "map_of (pendingRequests c) s = Some k" "calls s c = []" "s < sequence c"
    by (simp_all add: waiting_def)
  have "filter (\<lambda>t. deadline t \<le> now c + d \<and> timerSeq t = s) (timers c) = [?t0]"
    unfolding due_own own using assms(2) by simp
  with elapse_view[of d c s] p show ?thesis
    by (simp add: onTimeout_def calls_def)
qed

lemma waiting_sendAttempt:
  assumes "waiting s k cmd budget dl c"
  shows "waiting s k cmd budget dl (fst (sendAttempt k' cmd' args' c))"
  using assms
  by (auto simp: waiting_def sendAttempt_def Let_def calls_def update_conv' split: option.splits)

lemma waiting_step:
  assumes "waiting s k cmd budget dl c" "e \<noteq> StopBegin" "now c + elapsed [e] < dl"
  shows "\<exists>ms. received (step parse c e) = received c @ ms
             \<and> ((\<forall>m \<in> set ms. \<not> responseFor s m) \<longrightarrow> waiting s k cmd budget dl (step parse c e))"
proof (cases e)
  case (Data d)
  let ?c = "c\<lparr>buffer := buffer c @ d\<rparr>"
  have w: "map_of (pendingRequests ?c) s = map_of (pendingRequests c) s" "calls s ?c = calls s c"
    by (simp_all add: calls_def)
  from drain_view[of parse ?c s] w assms(1) Data show ?thesis
    by (auto simp: handleData_def waiting_def)
next
  case (Elapse d)
  with assms waiting_elapse[of s k cmd budget dl c d] show ?thesis by simp
next
  case (ProcessExit code signal)
  with assms(1) show ?thesis by (simp add: onExit_def waiting_def calls_def)
next
  case (Attempt k' cmd' args')
  have "now (fst (sendAttempt k' cmd' args' c)) = now c"
    "received (fst (sendAttempt k' cmd' args' c)) = received c"
    by (simp_all add: sendAttempt_def Let_def split: option.splits)
  with Attempt waiting_sendAttempt[OF assms(1)] show ?thesis by simp
next
  case (Notify cmd' args')
  with assms(1) show ?thesis
    by (auto simp: notify_def waiting_def calls_def split: if_splits)
next
  case StopBegin
  with assms(2) show ?thesis by simp
next
  case StopEnd
  with assms(1) show ?thesis
    by (auto simp: stopEnd_def Let_def waiting_def calls_def split: option.splits)
qed

lemma waiting_run:
  assumes "waiting s k cmd budget dl c" "StopBegin \<notin> set evs" "now c + elapsed evs < dl"
  shows "\<exists>ms. received (run parse c evs) = received c @ ms
           \<and> ((\<forall>m \<in> set ms. \<not> responseFor s m) \<longrightarrow> waiting s k cmd budget dl (run parse c evs))"
  using assms
proof (induction evs arbitrary: c)
  case Nil
  then show ?case by (simp add: run_def)
next
  case (Cons e evs)
  let ?c = "step parse c e"
  have el: "elapsed (e # evs) = elapsed [e] + elapsed evs"
    by (rule elapsed_Cons)
  have e: "e \<noteq> StopBegin" "now c + elapsed [e] < dl"
    using Cons.prems el by auto
  from waiting_step[OF Cons.prems(1) e, of parse] obtain ms1 where
    r1: "received ?c = received c @ ms1"
    and w1: "(\<forall>m \<in> set ms1. \<not> responseFor s m) \<longrightarrow> waiting s k cmd budget dl ?c"
    by blast
  have r: "run parse c (e # evs) = run parse ?c evs"
    by (simp add: run_def)
  show ?case
  proof (cases "\<forall>m \<in> set ms1. \<not> responseFor s m")
    case True
    with w1 have w: "waiting s k cmd budget dl ?c" by simp
    have "now ?c + elapsed evs < dl"
      using Cons.prems(3) now_step[of parse c e] el by simp
    from Cons.IH[OF w _ this] Cons.prems(2) obtain ms2 where
      r2: "received (run parse ?c evs) = received ?c @ ms2"
      and w2: "(\<forall>m \<in> set ms2. \<not> responseFor s m) \<longrightarrow> waiting s k cmd budget dl (run parse ?c evs)"
      by auto
    have "received (run parse c (e # evs)) = received c @ (ms1 @ ms2)"
      using r r1 r2 by simp
    moreover have "(\<forall>m \<in> set (ms1 @ ms2). \<not> responseFor s m)
        \<longrightarrow> waiting s k cmd budget dl (run parse c (e # evs))"
      using w2 r by auto
    ultimately show ?thesis by blast
  next
    case False
    from received_run[of parse ?c evs] obtain ms2 where
      r2: "received (run parse ?c evs) = received ?c @ ms2" by blast
    have "received (run parse c (e # evs)) = received c @ (ms1 @ ms2)"
      using r r1 r2 by simp
    moreover have "\<not> (\<forall>m \<in> set (ms1 @ ms2). \<not> responseFor s m)"
      using False by auto
    ultimately show ?thesis by blast
  qed
qed

lemma waiting_after_attempt:
  fixes c :: "'c client"
  assumes "started c" "consistent c" "timersIssued c"
  shows "waiting (sequence c) k cmd (timeoutFor cmd) (now c + timeoutFor cmd)
           (fst (sendAttempt k cmd args c))"
proof -
  have "filter (\<lambda>t. timerSeq t = sequence c) (timers c) = []"
    using assms(3) by (auto simp: timersIssued_def filter_empty_conv)
  moreover have "calls (sequence c) c = []"
    using assms(2) by (simp add: consistent_def)
  ultimately show ?thesis
    by (simp add: sendAttempt_started[OF assms(1)] waiting_def calls_def update_conv')
qed

lemma timersIssued_step:
  assumes "timersIssued c"
  shows "timersIssued (step parse c e)"
proof (cases e)
  case (Data d)
  from drain_view[of parse "c\<lparr>buffer := buffer c @ d\<rparr>" 0] Data assms show ?thesis
    by (simp add: handleData_def timersIssued_def)
next
  case (Attempt k cmd args)
  with assms show ?thesis
    by (auto simp: timersIssued_def sendAttempt_def Let_def split: option.splits)
qed (use assms in \<open>auto simp: timersIssued_def onExit_def notify_def stopBegin_def cancelAll_def
    stopEnd_def Let_def split: option.splits if_splits\<close>)

lemma timersIssued_run: "timersIssued c \<Longrightarrow> timersIssued (run parse c evs)"
  by (induction evs arbitrary: c) (simp_all add: run_def timersIssued_step)

subsection \<open>The exit of the child\<close>

lemma waiting_onExit:
  "waiting s k cmd budget dl c \<Longrightarrow> waiting s k cmd budget dl (onExit code signal c)"
  by (simp add: waiting_def onExit_def calls_def)

subsection \<open>Open and close\<close>

lemma notify_started:
  "started c \<Longrightarrow> notify cmd args c
     = Inr (c\<lparr>sequence := sequence c + 1, effects := effects c @ [Write (sequence c) cmd args]\<rparr>)"
  by (simp add: notify_def)

lemma openFile_started:
  assumes "started c"
  shows "openFile resolve file c
         = Inr (if resolve file \<in> openFiles c then c
                else c\<lparr>sequence := sequence c + 1,
                       effects := effects c @ [Write (sequence c) ''open'' (fileArgs (resolve file))],
                       openFiles := insert (resolve file) (openFiles c)\<rparr>)"
  using assms by (simp add: openFile_def openFileBegin_def openFileEnd_def Let_def notify_started)

lemma closeFile_started:
  assumes "started c"
  shows "closeFile resolve file c
         = Inr (if resolve file \<notin> openFiles c then c
                else c\<lparr>sequence := sequence c + 1,
                       effects := effects c @ [Write (sequence c) ''close'' (fileArgs (resolve file))],
                       openFiles := openFiles c - {resolve file}\<rparr>)"
  using assms by (simp add: closeFile_def closeFileBegin_def closeFileEnd_def Let_def notify_started)

subsection \<open>Shutdown\<close>



lemma stopBegin_pending [simp]: "pendingRequests (stopBegin c) = []"
  by (simp add: stopBegin_def cancelAll_def Let_def split: option.splits)





subsection \<open>The retry loop\<close>

lemma sleeps_append [simp]: "sleeps (xs @ ys) = sleeps xs @ sleeps ys"
  by (induction xs rule: sleeps.induct) simp_all

lemma sleeps_rejects [simp]: "sleeps (map (\<lambda>(s, k). Reject s k t) al) = []"
  by (induction al) auto

lemma sleeps_handleMessage [simp]: "sleeps (effects (handleMessage c m)) = sleeps (effects c)"
  by (cases m) (auto simp: handleMessage_def Let_def split: option.splits)

lemma sleeps_frameStep:
  "frameStep parse c = Some c' \<Longrightarrow> sleeps (effects c') = sleeps (effects c)"
  by (erule frameStep_cases) simp_all

lemma sleeps_handleData [simp]: "sleeps (effects (handleData parse c d)) = sleeps (effects c)"
proof -
  let ?I = "\<lambda>x. sleeps (effects x) = sleeps (effects c)"
  have "?I (drain parse (c\<lparr>buffer := buffer c @ d\<rparr>))"
    by (rule drain_invariant[where I = ?I]) (simp_all add: sleeps_frameStep)
  then show ?thesis by (simp add: handleData_def)
qed

lemma sleeps_onTimeout [simp]: "sleeps (effects (onTimeout c t)) = sleeps (effects c)"
  by (simp add: onTimeout_def)

lemma sleeps_timeouts [simp]: "sleeps (effects (foldl onTimeout c ts)) = sleeps (effects c)"
  by (induction ts arbitrary: c) simp_all

lemma sleeps_elapse [simp]: "sleeps (effects (elapse d c)) = sleeps (effects c)"
  by (simp add: elapse_def Let_def)

lemma sleeps_sendAttempt [simp]:
  "sleeps (effects (fst (sendAttempt k cmd args c))) = sleeps (effects c)"
  by (simp add: sendAttempt_def Let_def split: option.splits)

lemma sleeps_step [simp]: "sleeps (effects (step parse c e)) = sleeps (effects c)"
  by (cases e)
    (auto simp: onExit_def notify_def stopBegin_def cancelAll_def stopEnd_def Let_def
      split: option.splits if_splits)

lemma sleeps_run [simp]: "sleeps (effects (run parse c evs)) = sleeps (effects c)"
  by (induction evs arbitrary: c) (simp_all add: run_def)

lemma sequence_step: "sequence c \<le> sequence (step parse c e)"
proof (cases e)
  case (Data d)
  from drain_view[of parse "c\<lparr>buffer := buffer c @ d\<rparr>" 0] Data show ?thesis
    by (simp add: handleData_def)
qed (auto simp: onExit_def sendAttempt_def notify_def stopBegin_def cancelAll_def stopEnd_def Let_def
      split: option.splits if_splits)

lemma sequence_run: "sequence c \<le> sequence (run parse c evs)"
proof (induction evs arbitrary: c)
  case Nil
  then show ?case by (simp add: run_def)
next
  case (Cons e evs)
  from sequence_step[of c parse e] Cons.IH[of "step parse c e"] show ?case
    by (simp add: run_def)
qed

text \<open>The loop, one turn at a time.\<close>

lemma retryLoop_awaiting:
  assumes "attempt \<le> maxRetries" "started c"
    and "settlement (sequence c)
           (effects (run parse (fst (sendAttempt k cmd args c)) (sched attempt))) = None"
  shows "retryLoop parse sched k cmd args maxRetries attempt c
         = (run parse (fst (sendAttempt k cmd args c)) (sched attempt), Awaiting)"
  using assms
  by (subst retryLoop.simps) (simp add: sendAttempt_started Let_def)

lemma retryLoop_returns:
  assumes "attempt \<le> maxRetries" "started c"
    and "settlement (sequence c)
           (effects (run parse (fst (sendAttempt k cmd args c)) (sched attempt)))
         = Some (Resolved b)"
  shows "retryLoop parse sched k cmd args maxRetries attempt c
         = (run parse (fst (sendAttempt k cmd args c)) (sched attempt), Returned b)"
  using assms
  by (subst retryLoop.simps) (simp add: sendAttempt_started Let_def)

lemma retryLoop_retries:
  assumes "attempt < maxRetries" "started c"
    and "settlement (sequence c)
           (effects (run parse (fst (sendAttempt k cmd args c)) (sched attempt)))
         = Some (Rejected t)"
    and "str_includes ''Debug Failure'' t"
  shows "retryLoop parse sched k cmd args maxRetries attempt c
         = retryLoop parse sched k cmd args maxRetries (Suc attempt)
             (elapse (retryDelay attempt)
                (backoff attempt (run parse (fst (sendAttempt k cmd args c)) (sched attempt))))"
  using assms
  by (subst retryLoop.simps) (simp add: sendAttempt_started Let_def backoff_def)

lemma retryLoop_throws:
  assumes "attempt \<le> maxRetries" "started c"
    and "settlement (sequence c)
           (effects (run parse (fst (sendAttempt k cmd args c)) (sched attempt)))
         = Some (Rejected t)"
    and "\<not> str_includes ''Debug Failure'' t \<or> attempt = maxRetries"
  shows "retryLoop parse sched k cmd args maxRetries attempt c
         = ((run parse (fst (sendAttempt k cmd args c)) (sched attempt))
              \<lparr>logs := logs (run parse (fst (sendAttempt k cmd args c)) (sched attempt))
                 @ [(Warn, ''TSServer request failed'')]\<rparr>,
            Thrown t)"
  using assms
  by (subst retryLoop.simps) (auto simp: sendAttempt_started Let_def)

lemma retryLoop_turn:
  assumes "attempt \<le> maxRetries"
  obtains c2 r where "sleeps (effects c2) = sleeps (effects c)"
      "retryLoop parse sched k cmd args maxRetries attempt c = (c2, r)"
  | c2 where "sleeps (effects c2) = sleeps (effects c)" "attempt < maxRetries"
      "retryLoop parse sched k cmd args maxRetries attempt c
       = retryLoop parse sched k cmd args maxRetries (Suc attempt)
           (elapse (retryDelay attempt) (backoff attempt c2))"
proof -
  let ?c1 = "fst (sendAttempt k cmd args c)"
  let ?thrown = "snd (sendAttempt k cmd args c)"
  let ?c2 = "case ?thrown of Some e \<Rightarrow> ?c1 | None \<Rightarrow> run parse ?c1 (sched attempt)"
  let ?outcome = "case ?thrown of Some e \<Rightarrow> Some (Rejected e)
                  | None \<Rightarrow> settlement (sequence c) (effects ?c2)"
  have s2: "sleeps (effects ?c2) = sleeps (effects c)"
    by (simp split: option.splits)
  have s3: "sleeps (effects (?c2\<lparr>logs := l\<rparr>)) = sleeps (effects c)" for l
    using s2 by simp
  show ?thesis
  proof (cases ?outcome)
    case None
    with assms have "retryLoop parse sched k cmd args maxRetries attempt c = (?c2, Awaiting)"
      by (subst retryLoop.simps) (simp add: Let_def split_beta)
    with s2 that(1) show ?thesis by blast
  next
    case (Some out)
    show ?thesis
    proof (cases out)
      case (Resolved b)
      with Some assms
      have "retryLoop parse sched k cmd args maxRetries attempt c = (?c2, Returned b)"
        by (subst retryLoop.simps) (simp add: Let_def split_beta)
      with s2 that(1) show ?thesis by blast
    next
      case (Rejected t)
      show ?thesis
      proof (cases "str_includes ''Debug Failure'' t \<and> attempt \<noteq> maxRetries")
        case True
        with Some Rejected assms
        have "retryLoop parse sched k cmd args maxRetries attempt c
              = retryLoop parse sched k cmd args maxRetries (Suc attempt)
                  (elapse (retryDelay attempt) (backoff attempt ?c2))"
          by (subst retryLoop.simps) (simp add: Let_def split_beta backoff_def)
        moreover from True assms have "attempt < maxRetries" by simp
        ultimately show ?thesis using s2 that(2) by blast
      next
        case False
        with Some Rejected assms
        have "retryLoop parse sched k cmd args maxRetries attempt c
              = (?c2\<lparr>logs := logs ?c2 @ [(Warn, ''TSServer request failed'')]\<rparr>, Thrown t)"
          by (subst retryLoop.simps) (auto simp: Let_def split_beta)
        with s3 that(1) show ?thesis by blast
      qed
    qed
  qed
qed

text \<open>The backoffs of a whole call: the delays of the attempts, in order, up to the ceiling.\<close>

lemma retryLoop_sleeps:
  "\<exists>n. attempt + n \<le> max attempt maxRetries
     \<and> sleeps (effects (fst (retryLoop parse sched k cmd args maxRetries attempt c)))
       = sleeps (effects c) @ map retryDelay [attempt ..< attempt + n]"
proof (induction "Suc maxRetries - attempt" arbitrary: attempt c)
  case 0
  then have "\<not> attempt \<le> maxRetries" by simp
  then have "sleeps (effects (fst (retryLoop parse sched k cmd args maxRetries attempt c)))
      = sleeps (effects c)"
    by (subst retryLoop.simps) simp
  then show ?case by (intro exI[of _ 0]) simp
next
  case (Suc m)
  then have le: "attempt \<le> maxRetries" by simp
  from le show ?case
  proof (cases rule: retryLoop_turn[where parse = parse and sched = sched and k = k
        and cmd = cmd and args = args and c = c])
    case (1 c2 r)
    then show ?thesis by (intro exI[of _ 0]) simp
  next
    case (2 c2)
    let ?c4 = "elapse (retryDelay attempt) (backoff attempt c2)"
    have m: "m = Suc maxRetries - Suc attempt" using Suc.hyps(2) by simp
    from Suc.hyps(1)[OF m, of ?c4] obtain n where
      n: "Suc attempt + n \<le> max (Suc attempt) maxRetries"
      and sl: "sleeps (effects (fst (retryLoop parse sched k cmd args maxRetries (Suc attempt) ?c4)))
        = sleeps (effects ?c4) @ map retryDelay [Suc attempt ..< Suc attempt + n]"
      by blast
    have c4: "sleeps (effects ?c4) = sleeps (effects c) @ [retryDelay attempt]"
      using 2(1) by (simp add: backoff_def)
    have "[attempt ..< attempt + Suc n] = attempt # [Suc attempt ..< Suc attempt + n]"
      by (simp add: upt_rec)
    with sl c4 2(3)
    have "sleeps (effects (fst (retryLoop parse sched k cmd args maxRetries attempt c)))
       = sleeps (effects c) @ map retryDelay [attempt ..< attempt + Suc n]"
      by simp
    moreover have "attempt + Suc n \<le> max attempt maxRetries"
      using n 2(2) by simp
    ultimately show ?thesis by blast
  qed
qed

lemma retryDelay_values:
  "retryDelay 0 = 1000" "retryDelay 1 = 2000" "retryDelay 2 = 4000"
  by (simp_all add: retryDelay_def)

lemma retryDelay_increasing:
  "retryDelay a \<le> 5000" "retryDelay a \<le> retryDelay (Suc a)"
  "Suc a < 3 \<Longrightarrow> retryDelay a < retryDelay (Suc a)"
proof -
  show "retryDelay a \<le> 5000" by (simp add: retryDelay_def)
  show "retryDelay a \<le> retryDelay (Suc a)" by (simp add: retryDelay_def)
  assume "Suc a < 3"
  then have "a = 0 \<or> a = 1" by arith
  then show "retryDelay a < retryDelay (Suc a)"
    by (auto simp: retryDelay_def)
qed

subsection \<open>An attempt and its response\<close>

lemma settlement_append:
  "settlement s (es @ es')
   = (case settlement s es of None \<Rightarrow> settlement s es' | Some out \<Rightarrow> Some out)"
  by (induction s es rule: settlement.induct) simp_all

lemma settlement_no_calls: "filter (settles s) es = [] \<Longrightarrow> settlement s es = None"
  by (induction s es rule: settlement.induct) (simp_all split: if_splits)

lemma attempt_answered:
  fixes c :: "'c client"
  assumes "ready c" "parse content = Some (Response r)" "request_seq r = sequence c"
    and c2_def: "c2 = run parse (fst (sendAttempt k cmd args c)) [Data (frame (cra, crb, content))]"
  shows "settlement (sequence c) (effects c2)
         = Some (if success r then Resolved (body r) else Rejected (failureText (message r)))"
    and "ready c2" and "sequence c2 = sequence c + 1"
    and "sleeps (effects c2) = sleeps (effects c)"
proof -
  let ?c1 = "fst (sendAttempt k cmd args c)"
  from assms(1) have st: "started c" and co: "consistent c" and bu: "buffer c = []"
    by (simp_all add: ready_def)
  have c1: "?c1 = c\<lparr>sequence := sequence c + 1,
              pendingRequests := AList.update (sequence c) k (pendingRequests c),
              effects := effects c @ [Write (sequence c) cmd args],
              timers := timers c
                @ [Timer (now c + timeoutFor cmd) (sequence c) cmd (timeoutFor cmd) k]\<rparr>"
    by (simp add: sendAttempt_started[OF st])
  have p: "map_of (pendingRequests ?c1) (request_seq r) = Some k"
    by (simp add: c1 assms(3) update_conv')
  have b1: "buffer ?c1 = []"
    using bu by (simp add: c1)
  have "c2 = drain parse (?c1\<lparr>buffer := buffer ?c1 @ frame (cra, crb, content)\<rparr>)"
    by (simp only: c2_def run_def handleData_def foldl.simps step.simps)
  also have "\<dots> = drain parse (?c1\<lparr>buffer := frame (cra, crb, content) @ []\<rparr>)"
    by (simp only: b1 append_Nil append_Nil2)
  also have "\<dots> = drain parse (handleMessage (?c1\<lparr>buffer := []\<rparr>) (Response r))"
    by (simp only: drain_frame assms(2) option.case)
  also have "\<dots> = handleMessage (?c1\<lparr>buffer := []\<rparr>) (Response r)"
    by (rule drain_empty) (simp only: buffer_handleMessage, simp)
  also have "?c1\<lparr>buffer := []\<rparr> = ?c1"
    using b1 by simp
  finally have c2: "c2 = handleMessage ?c1 (Response r)" .
  have hm: "handleMessage ?c1 (Response r)
         = ?c1\<lparr>received := received ?c1 @ [Response r],
             pendingRequests := AList.delete (request_seq r) (pendingRequests ?c1),
             effects := effects ?c1
               @ [if success r then Resolve (request_seq r) k (body r)
                  else Reject (request_seq r) k (failureText (message r))],
             logs := logs ?c1 @ (if success r then [] else [(Error, ''TSServer request failed'')])\<rparr>"
    by (rule handleMessage_Response_pending[OF p])
  have e: "effects c2 = effects c @ [Write (sequence c) cmd args,
      if success r then Resolve (sequence c) k (body r)
      else Reject (sequence c) k (failureText (message r))]"
    unfolding c2 hm by (simp add: c1 assms(3))
  have "calls (sequence c) c = []"
    using co by (simp add: consistent_def)
  then have "settlement (sequence c) (effects c) = None"
    by (simp add: calls_def settlement_no_calls)
  then show "settlement (sequence c) (effects c2)
         = Some (if success r then Resolved (body r) else Rejected (failureText (message r)))"
    by (simp add: e settlement_append)
  have "consistent c2"
    unfolding c2 by (intro consistent_handleMessage consistent_sendAttempt co)
  moreover have "started c2" "buffer c2 = []"
    unfolding c2 hm using st bu
    by (simp_all add: c1 started_def)
  ultimately show "ready c2" by (simp add: ready_def)
  show "sequence c2 = sequence c + 1"
    unfolding c2 hm by (simp add: c1)
  show "sleeps (effects c2) = sleeps (effects c)"
    by (simp add: e)
qed

lemma ready_backoff:
  assumes "ready c"
  shows "ready (elapse d (backoff attempt c))"
    and "sequence (elapse d (backoff attempt c)) = sequence c"
    and "sleeps (effects (elapse d (backoff attempt c))) = sleeps (effects c) @ [retryDelay attempt]"
proof -
  have "consistent c"
    using assms by (simp add: ready_def)
  then have b: "consistent (backoff attempt c)"
    by (rule consistent_quiet) (simp_all add: backoff_def calls_def)
  have "process (foldl onTimeout x ts) = process x \<and> buffer (foldl onTimeout x ts) = buffer x"
    for x :: "'a client" and ts
    by (induction ts arbitrary: x) (simp_all add: onTimeout_def)
  then have "started (elapse d (backoff attempt c))" "buffer (elapse d (backoff attempt c)) = []"
    using assms by (simp_all add: ready_def elapse_def Let_def backoff_def started_def)
  with consistent_elapse[OF b, of d] show "ready (elapse d (backoff attempt c))"
    by (simp add: ready_def)
  show "sequence (elapse d (backoff attempt c)) = sequence c"
    by (simp add: backoff_def)
  show "sleeps (effects (elapse d (backoff attempt c))) = sleeps (effects c) @ [retryDelay attempt]"
    by (simp add: backoff_def)
qed

text \<open>Every attempt is answered by a failure that carries the signature.\<close>

lemma failing_attempts:
  fixes c :: "'c client"
  assumes "ready c" "attempt \<le> maxRetries"
    and "\<forall>i. attempt \<le> i \<and> i \<le> maxRetries \<longrightarrow>
           sched i = [Data (frame (fr i))]
           \<and> parse (snd (snd (fr i))) = Some (Response (r i))
           \<and> request_seq (r i) = sequence c + int (i - attempt)
           \<and> \<not> success (r i)
           \<and> (i < maxRetries \<longrightarrow> str_includes ''Debug Failure'' (failureText (message (r i))))"
  shows "snd (retryLoop parse sched k cmd args maxRetries attempt c)
         = Thrown (failureText (message (r maxRetries)))
       \<and> sleeps (effects (fst (retryLoop parse sched k cmd args maxRetries attempt c)))
         = sleeps (effects c) @ map retryDelay [attempt ..< maxRetries]"
  using assms
proof (induction "maxRetries - attempt" arbitrary: attempt c)
  case 0
  then have a: "attempt = maxRetries" by simp
  obtain cra crb content where fr: "fr attempt = (cra, crb, content)"
    by (cases "fr attempt")
  from "0.prems"(3) a fr
  have sc: "sched attempt = [Data (frame (cra, crb, content))]"
    and pa: "parse content = Some (Response (r attempt))"
    and rs: "request_seq (r attempt) = sequence c" and ns: "\<not> success (r attempt)"
    by auto
  let ?c2 = "run parse (fst (sendAttempt k cmd args c)) (sched attempt)"
  have c2: "?c2 = run parse (fst (sendAttempt k cmd args c)) [Data (frame (cra, crb, content))]"
    by (simp add: sc)
  from attempt_answered(1,4)[OF "0.prems"(1) pa rs c2] ns
  have se: "settlement (sequence c) (effects ?c2) = Some (Rejected (failureText (message (r attempt))))"
    and sl: "sleeps (effects ?c2) = sleeps (effects c)"
    by simp_all
  have st: "started c" using "0.prems"(1) by (simp add: ready_def)
  from retryLoop_throws[where sched = sched and attempt = attempt and parse = parse and c = c
      and k = k and cmd = cmd and args = args, OF "0.prems"(2) st se] a sl
  show ?case
    by simp
next
  case (Suc m)
  then have lt: "attempt < maxRetries" by simp
  obtain cra crb content where fr: "fr attempt = (cra, crb, content)"
    by (cases "fr attempt")
  from Suc.prems(3) lt fr
  have sc: "sched attempt = [Data (frame (cra, crb, content))]"
    and pa: "parse content = Some (Response (r attempt))"
    and rs: "request_seq (r attempt) = sequence c" and ns: "\<not> success (r attempt)"
    and sg: "str_includes ''Debug Failure'' (failureText (message (r attempt)))"
    by auto
  let ?c2 = "run parse (fst (sendAttempt k cmd args c)) (sched attempt)"
  let ?c4 = "elapse (retryDelay attempt) (backoff attempt ?c2)"
  have c2: "?c2 = run parse (fst (sendAttempt k cmd args c)) [Data (frame (cra, crb, content))]"
    by (simp add: sc)
  from attempt_answered[OF Suc.prems(1) pa rs c2] ns
  have se: "settlement (sequence c) (effects ?c2) = Some (Rejected (failureText (message (r attempt))))"
    and r2: "ready ?c2" and q2: "sequence ?c2 = sequence c + 1"
    and sl: "sleeps (effects ?c2) = sleeps (effects c)"
    by simp_all
  have st: "started c" using Suc.prems(1) by (simp add: ready_def)
  have loop: "retryLoop parse sched k cmd args maxRetries attempt c
      = retryLoop parse sched k cmd args maxRetries (Suc attempt) ?c4"
    by (rule retryLoop_retries[where sched = sched and attempt = attempt and parse = parse
          and c = c and k = k and cmd = cmd and args = args, OF lt st se sg])
  have r4: "ready ?c4" and q4: "sequence ?c4 = sequence c + 1"
    and s4: "sleeps (effects ?c4) = sleeps (effects c) @ [retryDelay attempt]"
    using ready_backoff[OF r2, of "retryDelay attempt" attempt] q2 sl by simp_all
  have m: "m = maxRetries - Suc attempt" using Suc.hyps(2) by simp
  have le: "Suc attempt \<le> maxRetries" using lt by simp
  have rest: "\<forall>i. Suc attempt \<le> i \<and> i \<le> maxRetries \<longrightarrow>
           sched i = [Data (frame (fr i))]
           \<and> parse (snd (snd (fr i))) = Some (Response (r i))
           \<and> request_seq (r i) = sequence ?c4 + int (i - Suc attempt)
           \<and> \<not> success (r i)
           \<and> (i < maxRetries \<longrightarrow> str_includes ''Debug Failure'' (failureText (message (r i))))"
  proof (intro allI impI)
    fix i assume i: "Suc attempt \<le> i \<and> i \<le> maxRetries"
    then have "attempt \<le> i \<and> i \<le> maxRetries" by simp
    with Suc.prems(3) have
      "sched i = [Data (frame (fr i))]
           \<and> parse (snd (snd (fr i))) = Some (Response (r i))
           \<and> request_seq (r i) = sequence c + int (i - attempt)
           \<and> \<not> success (r i)
           \<and> (i < maxRetries \<longrightarrow> str_includes ''Debug Failure'' (failureText (message (r i))))"
      by blast
    moreover have "sequence c + int (i - attempt) = sequence ?c4 + int (i - Suc attempt)"
      using i q4 by simp
    ultimately show "sched i = [Data (frame (fr i))]
           \<and> parse (snd (snd (fr i))) = Some (Response (r i))
           \<and> request_seq (r i) = sequence ?c4 + int (i - Suc attempt)
           \<and> \<not> success (r i)
           \<and> (i < maxRetries \<longrightarrow> str_includes ''Debug Failure'' (failureText (message (r i))))"
      by simp
  qed
  have up: "[attempt ..< maxRetries] = attempt # [Suc attempt ..< maxRetries]"
    using lt by (simp add: upt_rec)
  have s4': "sleeps (effects (backoff attempt ?c2)) = sleeps (effects c) @ [retryDelay attempt]"
    using s4 by simp
  from Suc.hyps(1)[OF m r4 le rest] show ?case
    unfolding loop by (simp add: s4' up)
qed

lemma signature_preserved:
  "str_includes ''Debug Failure'' (failureText m)
   = (\<exists>t. m = Some t \<and> str_includes ''Debug Failure'' t)"
proof (cases m)
  case None
  then show ?thesis by (simp add: failureText_def)
next
  case (Some t)
  have "str_includes ''Debug Failure'' (ps @ t @ ss)" if "str_includes ''Debug Failure'' t" for ps ss
    using that by (auto simp: str_includes_sublist sublist_def) (metis append.assoc)
  with Some show ?thesis
    by (auto simp: failureText_def)
qed

lemma ready_startedClient: "ready startedClient" "sequence startedClient = 1"
  "sleeps (effects startedClient) = []"
  by (simp_all add: ready_def started_def consistent_def calls_def startedClient_def initial_def)

lemma failureText_debugFailure:
  "failureText (Some debugFailure) = debugFailureError"
  "str_includes ''Debug Failure'' debugFailureError"
proof -
  have "str_includes ''Debug Failure'' debugFailure"
    by (simp add: debugFailure_def)
  then show "failureText (Some debugFailure) = debugFailureError"
    by (simp add: failureText_def) (simp add: debugFailure_def debugFailureError_def)
  then show "str_includes ''Debug Failure'' debugFailureError"
    using signature_preserved[of "Some debugFailure"] \<open>str_includes ''Debug Failure'' debugFailure\<close>
    by simp
qed

lemma first_reply:
  "settlement 1 (effects (run (replyParse m)
       (fst (sendAttempt ''caller'' ''definition'' None startedClient)) (replySchedule 0)))
   = Some (Rejected (failureText m))"
proof -
  have p: "replyParse m (decimal (Suc 0))
           = Some (Response (demoResponse (int (Suc 0)) False m))"
    by (simp add: replyParse_def parseInt_decimal)
  have s: "request_seq (demoResponse (int (Suc 0)) False m) = sequence startedClient"
    by (simp add: demoResponse_def ready_startedClient)
  from attempt_answered(1)[where parse = "replyParse m" and content = "decimal (Suc 0)"
      and c = startedClient and k = "''caller''" and cmd = "''definition''" and args = None
      and cra = True and crb = True, OF ready_startedClient(1) p s refl]
  show ?thesis
    by (simp add: replySchedule_def ready_startedClient demoResponse_def)
qed

lemma debug_failures_exhaust:
  "snd (request (replyParse (Some debugFailure)) replySchedule ''caller'' ''definition'' None
          startedClient) = Thrown debugFailureError
   \<and> sleeps (effects (fst (request (replyParse (Some debugFailure)) replySchedule ''caller''
          ''definition'' None startedClient))) = [1000, 2000, 4000]"
proof -
  let ?r = "\<lambda>i. demoResponse (int (Suc i)) False (Some debugFailure)"
  have "\<forall>i. 0 \<le> i \<and> i \<le> 3 \<longrightarrow>
           replySchedule i = [Data (frame (True, True, decimal (Suc i)))]
           \<and> replyParse (Some debugFailure) (snd (snd (True, True, decimal (Suc i))))
             = Some (Response (?r i))
           \<and> request_seq (?r i) = sequence startedClient + int (i - 0)
           \<and> \<not> success (?r i)
           \<and> (i < 3 \<longrightarrow> str_includes ''Debug Failure'' (failureText (message (?r i))))"
    by (simp add: replySchedule_def replyParse_def parseInt_decimal demoResponse_def
        ready_startedClient failureText_debugFailure)
  from failing_attempts[OF ready_startedClient(1) _ this, of "''caller''" "''definition''" None]
  have "snd (retryLoop (replyParse (Some debugFailure)) replySchedule ''caller'' ''definition''
          None 3 0 startedClient) = Thrown debugFailureError
   \<and> sleeps (effects (fst (retryLoop (replyParse (Some debugFailure)) replySchedule ''caller''
          ''definition'' None 3 0 startedClient))) = map retryDelay [0 ..< 3]"
    by (simp add: demoResponse_def failureText_debugFailure ready_startedClient)
  moreover have "map retryDelay [0 ..< 3] = [1000, 2000, 4000]"
    by (simp add: retryDelay_def upt_rec)
  moreover have "started startedClient"
    using ready_startedClient(1) by (simp add: ready_def)
  ultimately show ?thesis
    by (simp add: request_def requestWithRetry_def)
qed

subsection \<open>Frames counted in bytes\<close>

lemma wireFrame_ascii:
  assumes "\<forall>ch \<in> set content. (of_char ch :: nat) < 128"
  shows "wireFrame (cra, crb, content) = frame (cra, crb, content)"
proof -
  from assms have "utf8Length content = length content"
    by (induction content) (simp_all add: utf8Length_def)
  then show ?thesis by (simp add: wireFrame_def frame_def)
qed

lemma drain_no_header:
  assumes "\<not> prefix ''Content-Length: '' (buffer c)"
  shows "drain parse c = c"
  using assms by (subst drain.simps) (simp add: frameStep_def matchHeader_def)

lemma frameStep_header:
  assumes "length content = n"
  shows "frameStep parse (c\<lparr>buffer := frameHeader cra crb n @ content @ rest\<rparr>)
   = Some (case parse content of
        Some m \<Rightarrow> handleMessage (c\<lparr>buffer := rest\<rparr>) m
      | None \<Rightarrow> c\<lparr>buffer := rest, logs := logs c
           @ [(Warn, ''Failed to parse TSServer Content-Length message'')]\<rparr>)"
  using matchHeader_frameHeader[of cra crb n "content @ rest"] assms
  by (simp add: frameStep_def split: option.splits)

lemma drain_header:
  assumes "length content = n"
  shows "drain parse (c\<lparr>buffer := frameHeader cra crb n @ content @ rest\<rparr>)
   = drain parse (case parse content of
        Some m \<Rightarrow> handleMessage (c\<lparr>buffer := rest\<rparr>) m
      | None \<Rightarrow> c\<lparr>buffer := rest, logs := logs c
           @ [(Warn, ''Failed to parse TSServer Content-Length message'')]\<rparr>)"
  by (subst drain.simps) (simp add: frameStep_header[OF assms])

text \<open>A buffer that does not begin with the header never will: data is only appended.\<close>

lemma handleData_no_header:
  assumes "buffer c = x # b" "x \<noteq> CHR ''C''"
  shows "handleData parse c d = c\<lparr>buffer := buffer c @ d\<rparr>"
  unfolding handleData_def by (rule drain_no_header) (use assms in auto)

lemma handleData_never_header:
  assumes "buffer c = x # b" "x \<noteq> CHR ''C''"
  shows "foldl (handleData parse) c ds = c\<lparr>buffer := buffer c @ concat ds\<rparr>"
  using assms
proof (induction ds arbitrary: c b)
  case Nil
  then show ?case by simp
next
  case (Cons d ds)
  have h: "handleData parse c d = c\<lparr>buffer := buffer c @ d\<rparr>"
    by (rule handleData_no_header[OF Cons.prems])
  have "buffer (c\<lparr>buffer := buffer c @ d\<rparr>) = x # (b @ d)"
    using Cons.prems(1) by simp
  from Cons.IH[OF this Cons.prems(2)] show ?case
    by (simp add: h)
qed

lemma handleData_frame:
  assumes "buffer c = []"
  shows "handleData parse c (frame (cra, crb, content))
         = (case parse content of
              Some m \<Rightarrow> handleMessage c m
            | None \<Rightarrow> c\<lparr>logs := logs c
                 @ [(Warn, ''Failed to parse TSServer Content-Length message'')]\<rparr>)"
proof -
  have c: "c\<lparr>buffer := []\<rparr> = c"
    using assms by simp
  have "handleData parse c (frame (cra, crb, content))
        = drain parse (c\<lparr>buffer := frame (cra, crb, content) @ []\<rparr>)"
    by (simp add: handleData_def assms)
  also have "\<dots> = drain parse (case parse content of
        Some m \<Rightarrow> handleMessage (c\<lparr>buffer := []\<rparr>) m
      | None \<Rightarrow> c\<lparr>buffer := [], logs := logs c
           @ [(Warn, ''Failed to parse TSServer Content-Length message'')]\<rparr>)"
    by (rule drain_frame)
  also have "\<dots> = (case parse content of
        Some m \<Rightarrow> handleMessage (c\<lparr>buffer := []\<rparr>) m
      | None \<Rightarrow> c\<lparr>buffer := [], logs := logs c
           @ [(Warn, ''Failed to parse TSServer Content-Length message'')]\<rparr>)"
    by (rule drain_empty) (simp split: option.splits)
  also have "\<dots> = (case parse content of
              Some m \<Rightarrow> handleMessage c m
            | None \<Rightarrow> c\<lparr>logs := logs c
                 @ [(Warn, ''Failed to parse TSServer Content-Length message'')]\<rparr>)"
    using assms by (simp add: c split: option.splits)
  finally show ?thesis .
qed

text \<open>
  A frame of two string units and three bytes, followed by a frame of two bytes: the
  slice of three string units takes the first character of the second header.
\<close>

lemma handleData_wireFrames:
  fixes c :: "'c client"
  assumes "buffer c = []"
  shows "handleData parse c
           (wireFrame (cra, crb, [CHR ''{'', CHR 0xE9]) @ wireFrame (True, True, ''{}''))
   = (case parse [CHR ''{'', CHR 0xE9, CHR ''C''] of
        Some m \<Rightarrow>
          handleMessage (c\<lparr>buffer := ''ontent-Length: 2'' @ [CR, LF, CR, LF] @ ''{}''\<rparr>) m
      | None \<Rightarrow> c\<lparr>buffer := ''ontent-Length: 2'' @ [CR, LF, CR, LF] @ ''{}'',
            logs := logs c @ [(Warn, ''Failed to parse TSServer Content-Length message'')]\<rparr>)"
proof -
  let ?h = "frameHeader cra crb 3"
  let ?a = "[CHR ''{'', CHR 0xE9, CHR ''C'']"
  let ?rest = "''ontent-Length: 2'' @ [CR, LF, CR, LF] @ ''{}''"
  have u: "utf8Length [CHR ''{'', CHR 0xE9] = 3"
    by (simp add: utf8Length_def)
  have w: "wireFrame (True, True, ''{}'') = CHR ''C'' # ?rest"
    by (simp add: wireFrame_def utf8Length_def frameHeader_def decimal.simps digitChar_def)
  have i: "wireFrame (cra, crb, [CHR ''{'', CHR 0xE9]) @ wireFrame (True, True, ''{}'')
        = ?h @ ?a @ ?rest"
    by (simp add: w) (simp add: wireFrame_def u)
  have l: "length ?a = 3"
    by simp
  have "handleData parse c
           (wireFrame (cra, crb, [CHR ''{'', CHR 0xE9]) @ wireFrame (True, True, ''{}''))
      = drain parse (c\<lparr>buffer := ?h @ ?a @ ?rest\<rparr>)"
    unfolding handleData_def i by (simp add: assms)
  also have "\<dots> = drain parse (case parse ?a of
        Some m \<Rightarrow> handleMessage (c\<lparr>buffer := ?rest\<rparr>) m
      | None \<Rightarrow> c\<lparr>buffer := ?rest,
            logs := logs c @ [(Warn, ''Failed to parse TSServer Content-Length message'')]\<rparr>)"
    by (rule drain_header[OF l])
  also have "\<dots> = (case parse ?a of
        Some m \<Rightarrow> handleMessage (c\<lparr>buffer := ?rest\<rparr>) m
      | None \<Rightarrow> c\<lparr>buffer := ?rest,
            logs := logs c @ [(Warn, ''Failed to parse TSServer Content-Length message'')]\<rparr>)"
    by (rule drain_no_header) (simp split: option.splits)
  finally show ?thesis .
qed

subsection \<open>The first attempt answered, then the exit\<close>

lemma first_attempt_then_exit:
  "run (replyParse (Some debugFailure))
     (fst (sendAttempt ''caller'' ''definition'' None startedClient)) (exitSchedule 0)
   = startedClient\<lparr>process := None, sequence := 2,
       effects := [Write 1 ''definition'' None, Reject 1 ''caller'' debugFailureError,
                   EmitExit None None],
       timers := [Timer 15000 1 ''definition'' 15000 ''caller''],
       logs := [(Error, ''TSServer request failed''), (Info, ''TSServer process exited'')],
       received := [Response (demoResponse 1 False (Some debugFailure))]\<rparr>"
proof -
  let ?c1 = "fst (sendAttempt ''caller'' ''definition'' None startedClient)"
  have st: "started startedClient"
    using ready_startedClient(1) by (simp add: ready_def)
  have c1: "?c1 = startedClient\<lparr>sequence := 2, pendingRequests := [(1, ''caller'')],
       effects := [Write 1 ''definition'' None],
       timers := [Timer 15000 1 ''definition'' 15000 ''caller'']\<rparr>"
    by (simp add: sendAttempt_started[OF st] timeoutFor_def)
      (simp add: startedClient_def initial_def)
  have b: "buffer ?c1 = []"
    by (simp add: c1) (simp add: startedClient_def initial_def)
  have p: "replyParse (Some debugFailure) (decimal (Suc 0))
           = Some (Response (demoResponse 1 False (Some debugFailure)))"
    using parseInt_decimal[of "Suc 0"] by (simp add: replyParse_def)
  have "run (replyParse (Some debugFailure)) ?c1 (exitSchedule 0)
      = onExit None None (handleData (replyParse (Some debugFailure)) ?c1
          (frame (True, True, decimal 1)))"
    by (simp add: run_def exitSchedule_def)
  also have "\<dots> = onExit None None
      (handleMessage ?c1 (Response (demoResponse 1 False (Some debugFailure))))"
    by (simp add: handleData_frame[OF b] p)
  also have "\<dots> = startedClient\<lparr>process := None, sequence := 2,
       effects := [Write 1 ''definition'' None, Reject 1 ''caller'' debugFailureError,
                   EmitExit None None],
       timers := [Timer 15000 1 ''definition'' 15000 ''caller''],
       logs := [(Error, ''TSServer request failed''), (Info, ''TSServer process exited'')],
       received := [Response (demoResponse 1 False (Some debugFailure))]\<rparr>"
    unfolding c1
    by (simp add: handleMessage_def onExit_def demoResponse_def failureText_debugFailure)
      (simp add: startedClient_def initial_def)
  finally show ?thesis .
qed

subsection \<open>The retry loop while the child stays up\<close>

text \<open>
  After the backoff, on a client whose child is still there, the next attempt stores the
  entry under a number that no earlier attempt had, writes the request under it and arms
  its timer.
\<close>

lemma retry_reissues:
  fixes c :: "'c client"
  assumes "started c" and "attempt < maxRetries"
    and "settlement (sequence c)
           (effects (run parse (fst (sendAttempt k cmd args c)) (sched attempt)))
         = Some (Rejected t)"
    and "str_includes ''Debug Failure'' t"
    and c4_def: "c4 = elapse (retryDelay attempt)
           (backoff attempt (run parse (fst (sendAttempt k cmd args c)) (sched attempt)))"
    and "started c4"
  shows "retryLoop parse sched k cmd args maxRetries attempt c
         = retryLoop parse sched k cmd args maxRetries (Suc attempt) c4"
    and "sendAttempt k cmd args c4
         = (c4\<lparr>sequence := sequence c4 + 1,
              pendingRequests := AList.update (sequence c4) k (pendingRequests c4),
              effects := effects c4 @ [Write (sequence c4) cmd args],
              timers := timers c4
                @ [Timer (now c4 + timeoutFor cmd) (sequence c4) cmd (timeoutFor cmd) k]\<rparr>, None)"
    and "sequence c < sequence c4"
proof -
  show "retryLoop parse sched k cmd args maxRetries attempt c
         = retryLoop parse sched k cmd args maxRetries (Suc attempt) c4"
    unfolding c4_def
    by (rule retryLoop_retries[where sched = sched and attempt = attempt and parse = parse
          and c = c and k = k and cmd = cmd and args = args, OF assms(2,1,3,4)])
  show "sendAttempt k cmd args c4
         = (c4\<lparr>sequence := sequence c4 + 1,
              pendingRequests := AList.update (sequence c4) k (pendingRequests c4),
              effects := effects c4 @ [Write (sequence c4) cmd args],
              timers := timers c4
                @ [Timer (now c4 + timeoutFor cmd) (sequence c4) cmd (timeoutFor cmd) k]\<rparr>, None)"
    by (rule sendAttempt_started[OF assms(6)])
  have "sequence (fst (sendAttempt k cmd args c)) = sequence c + 1"
    by (simp add: sendAttempt_started[OF assms(1)])
  moreover have "sequence (fst (sendAttempt k cmd args c))
      \<le> sequence (run parse (fst (sendAttempt k cmd args c)) (sched attempt))"
    by (rule sequence_run)
  moreover have "sequence c4 = sequence (run parse (fst (sendAttempt k cmd args c)) (sched attempt))"
    by (simp add: c4_def backoff_def)
  ultimately show "sequence c < sequence c4"
    by simp
qed

text \<open>
  One turn of the loop, on a started client, when the promise of the attempt is
  rejected with the text \<open>t\<close>.  If \<open>t\<close> contains \<open>Debug Failure\<close> and the attempt is
  not the last, the loop waits \<open>min (1000 * 2 ^ attempt) 5000\<close> ms and goes into the next
  attempt, whose sequence number is newer than that of this one.  Otherwise the call
  throws \<open>t\<close> at once, with nothing written after the rejection.  A whole \<open>request\<close>
  makes at most three backoffs, of 1000, 2000 and 4000 ms in this order; the delays
  grow strictly and never exceed 5000 ms.  The text of the error of a failed response
  contains the signature exactly when the message of the response does.
\<close>

lemma retry_policy:
  fixes c :: "'c client"
  assumes "started c" and "attempt \<le> maxRetries"
    and "settlement (sequence c)
           (effects (run parse (fst (sendAttempt k cmd args c)) (sched attempt)))
         = Some (Rejected t)"
  shows "(str_includes ''Debug Failure'' t \<and> attempt < maxRetries \<longrightarrow>
            retryLoop parse sched k cmd args maxRetries attempt c
            = retryLoop parse sched k cmd args maxRetries (Suc attempt)
                (elapse (retryDelay attempt)
                   (backoff attempt (run parse (fst (sendAttempt k cmd args c)) (sched attempt))))
            \<and> sequence c
              < sequence (elapse (retryDelay attempt)
                   (backoff attempt (run parse (fst (sendAttempt k cmd args c)) (sched attempt))))
            \<and> now (elapse (retryDelay attempt)
                   (backoff attempt (run parse (fst (sendAttempt k cmd args c)) (sched attempt))))
              = now (run parse (fst (sendAttempt k cmd args c)) (sched attempt))
                + min (1000 * 2 ^ attempt) 5000)
       \<and> (\<not> str_includes ''Debug Failure'' t \<or> attempt = maxRetries \<longrightarrow>
            snd (retryLoop parse sched k cmd args maxRetries attempt c) = Thrown t
            \<and> effects (fst (retryLoop parse sched k cmd args maxRetries attempt c))
              = effects (run parse (fst (sendAttempt k cmd args c)) (sched attempt)))
       \<and> (\<exists>n \<le> 3. sleeps (effects (fst (request parse sched k cmd args c)))
              = sleeps (effects c) @ take n [1000, 2000, 4000])
       \<and> retryDelay 0 < retryDelay 1 \<and> retryDelay 1 < retryDelay 2
       \<and> (\<forall>a. retryDelay a \<le> 5000)
       \<and> (\<forall>m. str_includes ''Debug Failure'' (failureText m)
              = (\<exists>t'. m = Some t' \<and> str_includes ''Debug Failure'' t'))"
proof -
  let ?c1 = "fst (sendAttempt k cmd args c)"
  let ?c2 = "run parse ?c1 (sched attempt)"
  let ?c4 = "elapse (retryDelay attempt) (backoff attempt ?c2)"
  have q: "sequence c < sequence ?c4"
  proof -
    have "sequence ?c1 = sequence c + 1"
      by (simp add: sendAttempt_started[OF assms(1)])
    moreover have "sequence ?c1 \<le> sequence ?c2"
      by (rule sequence_run)
    moreover have "sequence ?c4 = sequence ?c2"
      by (simp add: backoff_def)
    ultimately show ?thesis by simp
  qed
  have n: "now ?c4 = now ?c2 + min (1000 * 2 ^ attempt) 5000"
    by (simp add: backoff_def retryDelay_def)
  have A: "str_includes ''Debug Failure'' t \<and> attempt < maxRetries \<longrightarrow>
            retryLoop parse sched k cmd args maxRetries attempt c
            = retryLoop parse sched k cmd args maxRetries (Suc attempt) ?c4"
    using retryLoop_retries[where sched = sched and attempt = attempt and parse = parse
        and c = c and k = k and cmd = cmd and args = args and maxRetries = maxRetries
        and t = t] assms(1,3)
    by blast
  have B: "\<not> str_includes ''Debug Failure'' t \<or> attempt = maxRetries \<longrightarrow>
            snd (retryLoop parse sched k cmd args maxRetries attempt c) = Thrown t
            \<and> effects (fst (retryLoop parse sched k cmd args maxRetries attempt c)) = effects ?c2"
    using retryLoop_throws[where sched = sched and attempt = attempt and parse = parse
        and c = c and k = k and cmd = cmd and args = args and maxRetries = maxRetries
        and t = t] assms
    by auto
  have E: "\<exists>n \<le> 3. sleeps (effects (fst (request parse sched k cmd args c)))
              = sleeps (effects c) @ take n [1000, 2000, 4000]"
  proof -
    from retryLoop_sleeps[of 0 3 parse sched k cmd args c] obtain n where
      n: "n \<le> 3" and sl: "sleeps (effects (fst (retryLoop parse sched k cmd args 3 0 c)))
       = sleeps (effects c) @ map retryDelay [0 ..< n]"
      by auto
    from n have "n = 0 \<or> n = 1 \<or> n = 2 \<or> n = 3" by arith
    then have "map retryDelay [0 ..< n] = take n [1000, 2000, 4000]"
      by (auto simp: retryDelay_def upt_rec)
    with sl n assms(1) show ?thesis
      by (auto simp: request_def requestWithRetry_def)
  qed
  have D: "retryDelay 0 < retryDelay 1" "retryDelay 1 < retryDelay 2" "\<forall>a. retryDelay a \<le> 5000"
    by (simp_all add: retryDelay_def)
  from A B E D q n signature_preserved show ?thesis
    by blast
qed

lemma retry_policy_witness:
  "started startedClient
   \<and> settlement (sequence startedClient) (effects (run (replyParse (Some debugFailure))
        (fst (sendAttempt ''caller'' ''definition'' None startedClient)) (replySchedule 0)))
     = Some (Rejected debugFailureError)
   \<and> retryLoop (replyParse (Some debugFailure)) replySchedule ''caller'' ''definition'' None 3 0
        startedClient
     = retryLoop (replyParse (Some debugFailure)) replySchedule ''caller'' ''definition'' None 3 1
        (elapse 1000 (backoff 0 (run (replyParse (Some debugFailure))
           (fst (sendAttempt ''caller'' ''definition'' None startedClient)) (replySchedule 0))))
   \<and> snd (request (replyParse (Some debugFailure)) replySchedule ''caller'' ''definition'' None
        startedClient) = Thrown debugFailureError
   \<and> sleeps (effects (fst (request (replyParse (Some debugFailure)) replySchedule ''caller''
        ''definition'' None startedClient))) = [1000, 2000, 4000]"
proof -
  have st: "started startedClient"
    using ready_startedClient(1) by (simp add: ready_def)
  have le: "(0::nat) \<le> 3" by simp
  have se: "settlement (sequence startedClient) (effects (run (replyParse (Some debugFailure))
        (fst (sendAttempt ''caller'' ''definition'' None startedClient)) (replySchedule 0)))
     = Some (Rejected debugFailureError)"
    using first_reply[of "Some debugFailure"]
    by (simp add: ready_startedClient failureText_debugFailure)
  have d: "retryDelay 0 = 1000"
    by (simp add: retryDelay_def)
  from retry_policy[where sched = replySchedule and attempt = 0 and maxRetries = 3
      and parse = "replyParse (Some debugFailure)" and c = startedClient and k = "''caller''"
      and cmd = "''definition''" and args = None and t = debugFailureError, OF st le se]
    failureText_debugFailure(2)
  have "retryLoop (replyParse (Some debugFailure)) replySchedule ''caller'' ''definition'' None 3 0
        startedClient
     = retryLoop (replyParse (Some debugFailure)) replySchedule ''caller'' ''definition'' None 3
        (Suc 0)
        (elapse (retryDelay 0) (backoff 0 (run (replyParse (Some debugFailure))
           (fst (sendAttempt ''caller'' ''definition'' None startedClient)) (replySchedule 0))))"
    by simp
  with st se debug_failures_exhaust show ?thesis
    by (simp add: d)
qed

subsection \<open>Open and close, one call after the other\<close>

text \<open>
  Calls that resume before the next one begins.  On a started client \<open>openFile\<close>
  succeeds, and a second \<open>openFile\<close> for a path with
  the same canonical form changes nothing: over the two calls one \<open>open\<close> notification
  is written if the file was not open before, and none if it was.  \<open>closeFile\<close> writes
  one \<open>close\<close> notification and removes the path if the path is in the set, and changes
  nothing if it is not; so a second \<open>closeFile\<close> changes nothing either.
\<close>

lemma open_close_deduplicated:
  assumes "started c" and "resolve q = resolve p"
  shows "(\<exists>c1. openFile resolve p c = Inr c1
            \<and> openFile resolve q c1 = Inr c1
            \<and> resolve p \<in> openFiles c1
            \<and> effects c1 = effects c
                @ (if resolve p \<in> openFiles c then []
                   else [Write (sequence c) ''open'' (fileArgs (resolve p))]))
       \<and> (\<exists>c1. closeFile resolve p c = Inr c1
            \<and> closeFile resolve q c1 = Inr c1
            \<and> openFiles c1 = openFiles c - {resolve p}
            \<and> effects c1 = effects c
                @ (if resolve p \<in> openFiles c
                   then [Write (sequence c) ''close'' (fileArgs (resolve p))] else [])
            \<and> (resolve p \<notin> openFiles c \<longrightarrow> c1 = c))"
proof -
  have s: "started (c\<lparr>sequence := n, effects := es, openFiles := fs\<rparr>)" for n es fs
    using assms(1) by (simp add: started_def)
  show ?thesis
    using assms s
    by (auto simp: openFile_started closeFile_started)
qed

lemma open_close_deduplicated_witness:
  "started startedClient
   \<and> (\<exists>c1. openFile (\<lambda>f. f) ''/test/file.ts'' startedClient = Inr c1
         \<and> openFile (\<lambda>f. f) ''/test/file.ts'' c1 = Inr c1
         \<and> effects c1 = [Write 1 ''open'' (fileArgs ''/test/file.ts'')])"
proof -
  have h: "started startedClient"
    by (simp add: startedClient_def initial_def started_def)
  have s: "sequence startedClient = 1" "effects startedClient = []" "openFiles startedClient = {}"
    by (simp_all add: startedClient_def initial_def)
  from open_close_deduplicated[OF h, of "\<lambda>f. f" "''/test/file.ts''" "''/test/file.ts''"]
  have "\<exists>c1. openFile (\<lambda>f. f) ''/test/file.ts'' startedClient = Inr c1
         \<and> openFile (\<lambda>f. f) ''/test/file.ts'' c1 = Inr c1
         \<and> effects c1 = [Write 1 ''open'' (fileArgs ''/test/file.ts'')]"
    unfolding s by auto
  with h show ?thesis by simp
qed

subsection \<open>Malformed frames\<close>

text \<open>
  Frames whose header counts string units.  A frame whose content does not parse is dropped with one warning and nothing else:
  the client goes on with the rest of the stream exactly as if the frame had not been
  there.  So a stream of whole frames delivers every message that parses, in order,
  whatever malformed frames stand between them, and leaves the buffer empty.
\<close>

lemma malformed_frame_dropped:
  assumes "parse bad = None"
  shows "handleData parse (c\<lparr>buffer := []\<rparr>) (frame (cra, crb, bad) @ rest)
         = handleData parse
             (c\<lparr>buffer := [],
                logs := logs c @ [(Warn, ''Failed to parse TSServer Content-Length message'')]\<rparr>)
             rest
       \<and> received (handleData parse (c\<lparr>buffer := []\<rparr>)
            (concat (map frame (pre @ (cra, crb, bad) # post))))
         = received c @ List.map_filter (\<lambda>f. parse (snd (snd f))) (pre @ post)
       \<and> buffer (handleData parse (c\<lparr>buffer := []\<rparr>)
            (concat (map frame (pre @ (cra, crb, bad) # post)))) = []"
proof -
  let ?w = "(Warn, ''Failed to parse TSServer Content-Length message'')"
  have sw: "c\<lparr>logs := logs c @ [?w], buffer := rest\<rparr> = c\<lparr>buffer := rest, logs := logs c @ [?w]\<rparr>"
    by simp
  have one: "handleData parse (c\<lparr>buffer := []\<rparr>) (frame (cra, crb, bad) @ rest)
         = handleData parse (c\<lparr>buffer := [], logs := logs c @ [?w]\<rparr>) rest"
    using assms drain_frame[where parse = parse and c = c and content = bad and rest = rest]
    by (simp add: handleData_def sw)
  have mf: "List.map_filter (\<lambda>f. parse (snd (snd f))) (pre @ (cra, crb, bad) # post)
        = List.map_filter (\<lambda>f. parse (snd (snd f))) (pre @ post)"
    using assms by (simp add: List.map_filter_def)
  have many: "buffer (handleData parse (c\<lparr>buffer := []\<rparr>)
            (concat (map frame (pre @ (cra, crb, bad) # post)))) = []
     \<and> received (handleData parse (c\<lparr>buffer := []\<rparr>)
            (concat (map frame (pre @ (cra, crb, bad) # post))))
         = received c @ List.map_filter (\<lambda>f. parse (snd (snd f))) (pre @ post)"
    using drain_frames[where parse = parse and c = c and fs = "pre @ (cra, crb, bad) # post"]
    unfolding mf by (simp add: handleData_def)
  from one many show ?thesis by simp
qed

lemma malformed_frame_dropped_witness:
  "demoParse ''{'' = None
   \<and> received (handleData demoParse (initial :: nat client)
        (frame (True, True, ''{'') @ frame (True, True, ''{}'')))
     = [Event demoEvent]"
proof -
  have h: "demoParse ''{'' = None"
    by (simp add: demoParse_def)
  have i: "(initial :: nat client)\<lparr>buffer := []\<rparr> = initial"
    by (simp add: initial_def)
  have "received (handleData demoParse ((initial :: nat client)\<lparr>buffer := []\<rparr>)
          (concat (map frame ([] @ (True, True, ''{'') # [(True, True, ''{}'')]))))
        = received (initial :: nat client)
          @ List.map_filter (\<lambda>f. demoParse (snd (snd f))) ([] @ [(True, True, ''{}'')])"
    using h malformed_frame_dropped[where parse = demoParse and bad = "''{''"
        and c = "initial :: nat client" and pre = "[]" and cra = True and crb = True
        and post = "[(True, True, ''{}'')]"]
    by blast
  then show ?thesis
    using h unfolding i by (simp add: demoParse_def initial_def List.map_filter_simps)
qed

section \<open>The claims\<close>

text \<open>
  C1.  Feeding a stream to \<open>handleData\<close> chunk by chunk leaves the client in the same
  state as feeding it in one call, for every split of the stream (first chunk \<open>d\<close>, then
  the chunks \<open>ds\<close>) and every starting state: the same messages have been passed to
  \<open>handleMessage\<close> in the same order (\<open>received\<close>), with the same effects, and the
  same data is left in the buffer.  What one call leaves in the buffer is a tail of the
  old buffer followed by the new data: only whole frames are taken from its front.  One
  call on a stream of any number of whole frames (none, one, many) delivers the message
  of every frame that parses, in order, and leaves the buffer empty.
\<close>

theorem framer_chunk_invariance:
  "foldl (handleData parse) (handleData parse c d) ds = handleData parse c (d @ concat ds)
   \<and> received (foldl (handleData parse) (handleData parse c d) ds)
       = received (handleData parse c (d @ concat ds))
   \<and> suffix (buffer (handleData parse c d)) (buffer c @ d)
   \<and> received (handleData parse (c\<lparr>buffer := []\<rparr>) (concat (map frame fs)))
       = received c @ List.map_filter (\<lambda>f. parse (snd (snd f))) fs
   \<and> buffer (handleData parse (c\<lparr>buffer := []\<rparr>) (concat (map frame fs))) = []"
  using handleData_chunks[of parse c d ds] drain_suffix[of parse "c\<lparr>buffer := buffer c @ d\<rparr>"]
    drain_frames[where parse = parse and c = c and fs = fs]
  by (simp add: handleData_def)

theorem framer_chunk_invariance_witness:
  "received (foldl (handleData demoParse)
      (handleData demoParse (initial :: nat client)
         (take 7 (frame (True, True, ''{}'') @ frame (False, False, ''[]''))))
      [take 20 (drop 7 (frame (True, True, ''{}'') @ frame (False, False, ''[]''))),
       drop 20 (drop 7 (frame (True, True, ''{}'') @ frame (False, False, ''[]'')))])
   = [Event demoEvent, Event demoEvent]"
proof -
  let ?s = "frame (True, True, ''{}'') @ frame (False, False, ''[]'')"
  have cut: "take 7 ?s @ concat [take 20 (drop 7 ?s), drop 20 (drop 7 ?s)] = ?s"
    using append_take_drop_id[of 20 "drop 7 ?s"] append_take_drop_id[of 7 ?s]
    by (simp del: append_take_drop_id drop_drop)
  have whole: "?s = concat (map frame [(True, True, ''{}''), (False, False, ''[]'')])"
    by simp
  have i: "(initial :: nat client)\<lparr>buffer := []\<rparr> = initial"
    by (simp add: initial_def)
  from framer_chunk_invariance[where parse = demoParse and c = "initial :: nat client"
      and d = "take 7 ?s" and ds = "[take 20 (drop 7 ?s), drop 20 (drop 7 ?s)]"
      and fs = "[(True, True, ''{}''), (False, False, ''[]'')]"]
  have "received (foldl (handleData demoParse)
      (handleData demoParse (initial :: nat client) (take 7 ?s))
      [take 20 (drop 7 ?s), drop 20 (drop 7 ?s)])
     = received (handleData demoParse (initial :: nat client) ?s)"
    and "received (handleData demoParse ((initial :: nat client)\<lparr>buffer := []\<rparr>)
          (concat (map frame [(True, True, ''{}''), (False, False, ''[]'')])))
     = received (initial :: nat client)
       @ List.map_filter (\<lambda>f. demoParse (snd (snd f))) [(True, True, ''{}''), (False, False, ''[]'')]"
    unfolding cut by blast+
  then show ?thesis
    unfolding i whole[symmetric]
    by (simp add: List.map_filter_simps demoParse_def initial_def)
qed

text \<open>
  C2.  Responses whose \<open>request_seq\<close> are pending, delivered in any order \<open>rs\<close>: each
  one calls exactly the entry stored under the sequence number it echoes, with the body
  when \<open>success\<close> is true and otherwise with an error whose text contains the message of
  the response; afterwards exactly these entries are gone from the map.
\<close>

theorem correlator_settles_matching_caller:
  assumes "distinct (map request_seq rs)"
    and "\<forall>r \<in> set rs. map_of (pendingRequests c) (request_seq r) \<noteq> None"
  shows "effects (foldl handleMessage c (map Response rs))
         = effects c @ map (\<lambda>r.
             if success r
             then Resolve (request_seq r) (the (map_of (pendingRequests c) (request_seq r))) (body r)
             else Reject (request_seq r) (the (map_of (pendingRequests c) (request_seq r)))
                    (failureText (message r))) rs
       \<and> pendingRequests (foldl handleMessage c (map Response rs))
         = filter (\<lambda>e. fst e \<notin> request_seq ` set rs) (pendingRequests c)
       \<and> (\<forall>r \<in> set rs. \<forall>t. message r = Some t \<longrightarrow> str_includes t (failureText (message r)))"
  using responses_settled[OF assms] str_includes_failureText by simp

theorem correlator_settles_matching_caller_witness:
  "effects (foldl handleMessage
      ((initial :: string client)\<lparr>pendingRequests := [(1, ''first''), (2, ''second'')]\<rparr>)
      [Response (demoResponse 2 True None), Response (demoResponse 1 False (Some ''File not found''))])
   = [Resolve 2 ''second'' (Some (JStr ''result'')), Reject 1 ''first'' ''File not found'']"
  using correlator_settles_matching_caller[where
      rs = "[demoResponse 2 True None, demoResponse 1 False (Some ''File not found'')]"
      and c = "(initial :: string client)\<lparr>pendingRequests := [(1, ''first''), (2, ''second'')]\<rparr>"]
  by (simp add: demoResponse_def initial_def failureText_def)

text \<open>
  C3.  In every run of a client whose state is consistent: the map never holds two
  entries for one sequence number, and no entry is ever called twice.  An entry that is
  in the map is removed with exactly one call, by the response, by its timer or by
  \<open>stop\<close>, whichever comes first; once the entry is gone, nothing that happens later
  (a response, the timer, \<open>stop\<close>, anything else) calls it.  A response that finds no
  entry changes neither the map nor the effects.
\<close>

theorem pending_entry_removed_once:
  fixes c :: "'c client"
  assumes "consistent c"
  shows "distinct (map fst (pendingRequests (run parse c evs)))
       \<and> (\<forall>s. length (calls s (run parse c evs)) \<le> 1)
       \<and> (\<forall>s. gone s c \<longrightarrow>
             gone s (run parse c evs) \<and> calls s (run parse c evs) = calls s c)
       \<and> (\<forall>r k. map_of (pendingRequests c) (request_seq r) = Some k \<longrightarrow>
             gone (request_seq r) (handleMessage c (Response r))
             \<and> calls (request_seq r) (handleMessage c (Response r))
               = [if success r then Resolve (request_seq r) k (body r)
                  else Reject (request_seq r) k (failureText (message r))])
       \<and> (\<forall>t k. map_of (pendingRequests c) (timerSeq t) = Some k \<longrightarrow>
             gone (timerSeq t) (onTimeout c t)
             \<and> calls (timerSeq t) (onTimeout c t)
               = [Reject (timerSeq t) (timerReject t)
                    (timeoutText (timerCommand t) (timerBudget t))])
       \<and> (\<forall>s k. map_of (pendingRequests c) s = Some k \<longrightarrow>
             gone s (stopBegin c)
             \<and> calls s (stopBegin c) = [Reject s k ''TSServer is shutting down''])
       \<and> (\<forall>r. map_of (pendingRequests c) (request_seq r) = None \<longrightarrow>
             effects (handleMessage c (Response r)) = effects c
             \<and> pendingRequests (handleMessage c (Response r)) = pendingRequests c)"
proof -
  have run: "consistent (run parse c evs)"
    by (rule consistent_run[OF assms])
  have pend: "s < sequence c \<and> calls s c = []" if "map_of (pendingRequests c) s = Some k" for s k
    using assms that by (auto simp: consistent_def)
  have d: "distinct (map fst (pendingRequests c))"
    using assms by (simp add: consistent_def)
  have stop: "calls s (stopBegin c) = calls s (cancelAll c)
      \<and> pendingRequests (stopBegin c) = pendingRequests (cancelAll c)
      \<and> sequence (stopBegin c) = sequence c" for s
    by (simp add: stopBegin_def Let_def calls_def cancelAll_def split: option.splits)
  have 1: "distinct (map fst (pendingRequests (run parse c evs)))"
    using run by (simp add: consistent_def)
  have 2: "\<forall>s. length (calls s (run parse c evs)) \<le> 1"
    using run by (simp add: consistent_def)
  have 3: "\<forall>s. gone s c \<longrightarrow>
             gone s (run parse c evs) \<and> calls s (run parse c evs) = calls s c"
    using gone_run by blast
  have 4: "\<forall>r k. map_of (pendingRequests c) (request_seq r) = Some k \<longrightarrow>
             gone (request_seq r) (handleMessage c (Response r))
             \<and> calls (request_seq r) (handleMessage c (Response r))
               = [if success r then Resolve (request_seq r) k (body r)
                  else Reject (request_seq r) k (failureText (message r))]"
  proof (intro allI impI)
    fix r :: TSServerResponse and k
    assume p: "map_of (pendingRequests c) (request_seq r) = Some k"
    have "sequence (handleMessage c (Response r)) = sequence c"
      by (simp add: handleMessage_def Let_def split: option.splits)
    with removal_by_response[OF p] pend[OF p]
    show "gone (request_seq r) (handleMessage c (Response r))
             \<and> calls (request_seq r) (handleMessage c (Response r))
               = [if success r then Resolve (request_seq r) k (body r)
                  else Reject (request_seq r) k (failureText (message r))]"
      by (simp add: gone_def)
  qed
  have 5: "\<forall>t k. map_of (pendingRequests c) (timerSeq t) = Some k \<longrightarrow>
             gone (timerSeq t) (onTimeout c t)
             \<and> calls (timerSeq t) (onTimeout c t)
               = [Reject (timerSeq t) (timerReject t)
                    (timeoutText (timerCommand t) (timerBudget t))]"
  proof (intro allI impI)
    fix t :: "'c timer" and k
    assume p: "map_of (pendingRequests c) (timerSeq t) = Some k"
    have "sequence (onTimeout c t) = sequence c"
      by (simp add: onTimeout_def)
    with removal_by_timeout[OF p] pend[OF p]
    show "gone (timerSeq t) (onTimeout c t)
             \<and> calls (timerSeq t) (onTimeout c t)
               = [Reject (timerSeq t) (timerReject t)
                    (timeoutText (timerCommand t) (timerBudget t))]"
      by (simp add: gone_def)
  qed
  have 6: "\<forall>s k. map_of (pendingRequests c) s = Some k \<longrightarrow>
             gone s (stopBegin c)
             \<and> calls s (stopBegin c) = [Reject s k ''TSServer is shutting down'']"
  proof (intro allI impI)
    fix s k assume p: "map_of (pendingRequests c) s = Some k"
    from removal_by_stop[OF d p] pend[OF p] stop[of s]
    show "gone s (stopBegin c)
             \<and> calls s (stopBegin c) = [Reject s k ''TSServer is shutting down'']"
      by (simp add: gone_def)
  qed
  have 7: "\<forall>r. map_of (pendingRequests c) (request_seq r) = None \<longrightarrow>
             effects (handleMessage c (Response r)) = effects c
             \<and> pendingRequests (handleMessage c (Response r)) = pendingRequests c"
    by (simp add: handleMessage_def)
  from 1 2 3 4 5 6 7 show ?thesis by blast
qed

theorem pending_entry_removed_once_witness:
  "consistent (handleMessage (fst (sendAttempt ''caller'' ''definition'' None startedClient))
      (Response (demoResponse 1 True None)))
   \<and> calls 1 (run demoParse
        (handleMessage (fst (sendAttempt ''caller'' ''definition'' None startedClient))
           (Response (demoResponse 1 True None)))
        [Elapse 15000, Data (frame (True, True, ''late'')), StopBegin, StopEnd])
     = [Resolve 1 ''caller'' (Some (JStr ''result''))]"
proof -
  let ?c = "handleMessage (fst (sendAttempt ''caller'' ''definition'' None startedClient))
      (Response (demoResponse 1 True None))"
  have c: "consistent ?c"
    by (intro consistent_handleMessage consistent_sendAttempt)
      (simp add: startedClient_def consistent_def initial_def calls_def)
  have v: "gone 1 ?c \<and> calls 1 ?c = [Resolve 1 ''caller'' (Some (JStr ''result''))]"
    by (simp add: gone_def calls_def handleMessage_def sendAttempt_def executorThrows_def
        startedClient_def initial_def demoResponse_def Let_def)
  from pending_entry_removed_once[OF c, of demoParse
      "[Elapse 15000, Data (frame (True, True, ''late'')), StopBegin, StopEnd]"] v c
  show ?thesis by simp
qed

text \<open>
  C4.  The loop of \<open>requestWithRetry\<close> looks for the child once, before the first
  attempt.  Here the child answers the first attempt with a failure that carries the
  signature and exits before the backoff of 1000 ms is over.  The loop waits, takes
  the next sequence number and stores the entry under it, and the write throws: no
  request is written under the number 2, no timer is armed for it, the caller gets the
  \<open>TypeError\<close> of the engine, and the entry stays in the map.
\<close>

theorem retry_after_exit_not_reissued:
  "request (replyParse (Some debugFailure)) exitSchedule ''caller'' ''definition'' None
     startedClient
   = (startedClient\<lparr>process := None, sequence := 3,
        pendingRequests := [(2, ''caller'')],
        now := 1000,
        effects := [Write 1 ''definition'' None, Reject 1 ''caller'' debugFailureError,
                    EmitExit None None, Sleep 1000],
        timers := [Timer 15000 1 ''definition'' 15000 ''caller''],
        logs := [(Error, ''TSServer request failed''), (Info, ''TSServer process exited''),
                 (Warn, ''TSServer request failed''),
                 (Info, ''Retrying TSServer request after debug failure''),
                 (Warn, ''TSServer request failed'')],
        received := [Response (demoResponse 1 False (Some debugFailure))]\<rparr>,
      Thrown (propertyOfNull ''stdin''))"
proof -
  let ?parse = "replyParse (Some debugFailure)"
  let ?c2 = "run ?parse (fst (sendAttempt ''caller'' ''definition'' None startedClient))
               (exitSchedule 0)"
  let ?c4 = "elapse (retryDelay 0) (backoff 0 ?c2)"
  have st: "started startedClient"
    using ready_startedClient(1) by (simp add: ready_def)
  have se: "settlement (sequence startedClient) (effects ?c2) = Some (Rejected debugFailureError)"
    unfolding first_attempt_then_exit by (simp add: ready_startedClient)
  have lt: "(0::nat) < 3" by simp
  have loop: "retryLoop ?parse exitSchedule ''caller'' ''definition'' None 3 0 startedClient
      = retryLoop ?parse exitSchedule ''caller'' ''definition'' None 3 (Suc 0) ?c4"
    by (rule retryLoop_retries[where sched = exitSchedule and attempt = 0
          and parse = ?parse and c = startedClient and k = "''caller''" and cmd = "''definition''"
          and args = None, OF lt st se failureText_debugFailure(2)])
  have c4: "?c4 = startedClient\<lparr>process := None, sequence := 2, now := 1000,
        effects := [Write 1 ''definition'' None, Reject 1 ''caller'' debugFailureError,
                    EmitExit None None, Sleep 1000],
        timers := [Timer 15000 1 ''definition'' 15000 ''caller''],
        logs := [(Error, ''TSServer request failed''), (Info, ''TSServer process exited''),
                 (Warn, ''TSServer request failed''),
                 (Info, ''Retrying TSServer request after debug failure'')],
        received := [Response (demoResponse 1 False (Some debugFailure))]\<rparr>"
    unfolding first_attempt_then_exit
    by (simp add: backoff_def elapse_def retryDelay_def Let_def)
      (simp add: startedClient_def initial_def)
  have "retryLoop ?parse exitSchedule ''caller'' ''definition'' None 3 (Suc 0) ?c4
      = (startedClient\<lparr>process := None, sequence := 3,
        pendingRequests := [(2, ''caller'')],
        now := 1000,
        effects := [Write 1 ''definition'' None, Reject 1 ''caller'' debugFailureError,
                    EmitExit None None, Sleep 1000],
        timers := [Timer 15000 1 ''definition'' 15000 ''caller''],
        logs := [(Error, ''TSServer request failed''), (Info, ''TSServer process exited''),
                 (Warn, ''TSServer request failed''),
                 (Info, ''Retrying TSServer request after debug failure''),
                 (Warn, ''TSServer request failed'')],
        received := [Response (demoResponse 1 False (Some debugFailure))]\<rparr>,
      Thrown (propertyOfNull ''stdin''))"
    unfolding c4
    apply (subst retryLoop.simps)
    apply (simp add: sendAttempt_def executorThrows_def Let_def propertyOfNull_def)
    apply (simp add: startedClient_def initial_def)
    done
  with loop st show ?thesis
    by (simp add: request_def requestWithRetry_def)
qed

text \<open>
  C5, as the claim states it, fails: a request is pending when the child exits, and the
  \<open>exit\<close> handler neither removes its entry nor calls it.
\<close>

theorem exit_fails_pending_counterexample:
  "map_of (pendingRequests (onExit (Some 1) None
      (fst (sendAttempt ''caller'' ''definition'' None startedClient)))) 1 = Some ''caller''
   \<and> calls 1 (onExit (Some 1) None
      (fst (sendAttempt ''caller'' ''definition'' None startedClient))) = []"
  by (simp add: onExit_def sendAttempt_def executorThrows_def startedClient_def initial_def
      calls_def Let_def)

text \<open>
  C5, amended.  The \<open>exit\<close> handler forgets the process and emits the \<open>exit\<close>
  notification; it fails no pending request, and leaves the pending map and the timers
  as they are.  A request that was waiting stays pending and uncalled, whatever else
  happens after the exit, until a response for it, \<open>stop\<close> or its own timer settles it:
  from every such state a response for it settles it with the result or the error of
  the response, \<open>stop\<close> rejects it with the cancellation error, and the passing of
  time that reaches its deadline rejects it with the timed-out error.
\<close>

theorem exit_leaves_pending_requests:
  fixes c :: "'c client"
  assumes "waiting s k cmd budget dl c" and "consistent c"
    and "StopBegin \<notin> set evs"
    and "\<forall>m \<in> set (drop (length (received c))
            (received (run parse (onExit code signal c) evs))). \<not> responseFor s m"
    and "now c + elapsed evs < dl"
  shows "process (onExit code signal c) = None
       \<and> effects (onExit code signal c) = effects c @ [EmitExit code signal]
       \<and> pendingRequests (onExit code signal c) = pendingRequests c
       \<and> timers (onExit code signal c) = timers c
       \<and> map_of (pendingRequests (run parse (onExit code signal c) evs)) s = Some k
       \<and> calls s (run parse (onExit code signal c) evs) = []
       \<and> (\<forall>r. request_seq r = s \<longrightarrow>
             calls s (handleMessage (run parse (onExit code signal c) evs) (Response r))
             = [if success r then Resolve s k (body r)
                else Reject s k (failureText (message r))])
       \<and> calls s (stopBegin (run parse (onExit code signal c) evs))
         = [Reject s k ''TSServer is shutting down'']
       \<and> (\<forall>d. dl \<le> now c + elapsed evs + d \<longrightarrow>
             calls s (elapse d (run parse (onExit code signal c) evs))
             = [Reject s k (timeoutText cmd budget)])"
proof -
  let ?c0 = "onExit code signal c"
  let ?c1 = "run parse ?c0 evs"
  have c0: "now ?c0 = now c" "received ?c0 = received c"
    by (simp_all add: onExit_def)
  have w0: "waiting s k cmd budget dl ?c0"
    by (rule waiting_onExit[OF assms(1)])
  have "now ?c0 + elapsed evs < dl"
    using assms(5) c0 by simp
  from waiting_run[OF w0 assms(3) this, of parse] obtain ms where
    ms: "received ?c1 = received c @ ms"
    and w: "(\<forall>m \<in> set ms. \<not> responseFor s m) \<longrightarrow> waiting s k cmd budget dl ?c1"
    using c0 by auto
  from ms have "drop (length (received c)) (received ?c1) = ms"
    by simp
  with assms(4) w have w1: "waiting s k cmd budget dl ?c1"
    by simp
  then have p: "map_of (pendingRequests ?c1) s = Some k" "calls s ?c1 = []"
    by (simp_all add: waiting_def)
  have co: "consistent ?c1"
    by (intro consistent_run consistent_onExit assms(2))
  then have di: "distinct (map fst (pendingRequests ?c1))"
    by (simp add: consistent_def)
  have a: "\<forall>r. request_seq r = s \<longrightarrow>
             calls s (handleMessage ?c1 (Response r))
             = [if success r then Resolve s k (body r)
                else Reject s k (failureText (message r))]"
  proof (intro allI impI)
    fix r :: TSServerResponse
    assume r: "request_seq r = s"
    with p have "map_of (pendingRequests ?c1) (request_seq r) = Some k"
      by simp
    from removal_by_response[OF this] r p(2)
    show "calls s (handleMessage ?c1 (Response r))
             = [if success r then Resolve s k (body r)
                else Reject s k (failureText (message r))]"
      by simp
  qed
  have st: "calls s (stopBegin x) = calls s (cancelAll x)" for x :: "'c client"
    by (simp add: stopBegin_def Let_def calls_def cancelAll_def split: option.splits)
  have b: "calls s (stopBegin ?c1) = [Reject s k ''TSServer is shutting down'']"
    using removal_by_stop[OF di p(1)] p(2) by (simp add: st)
  have n1: "now ?c1 = now c + elapsed evs"
    using now_run[of parse ?c0 evs] c0 by simp
  have t: "\<forall>d. dl \<le> now c + elapsed evs + d \<longrightarrow>
             calls s (elapse d ?c1) = [Reject s k (timeoutText cmd budget)]"
  proof (intro allI impI)
    fix d assume "dl \<le> now c + elapsed evs + d"
    then have "dl \<le> now ?c1 + d"
      using n1 by simp
    from waiting_fires[OF w1 this]
    show "calls s (elapse d ?c1) = [Reject s k (timeoutText cmd budget)]"
      by simp
  qed
  have e: "process ?c0 = None" "effects ?c0 = effects c @ [EmitExit code signal]"
    "pendingRequests ?c0 = pendingRequests c" "timers ?c0 = timers c"
    by (simp_all add: onExit_def)
  from e p a b t show ?thesis
    by blast
qed

theorem exit_leaves_pending_requests_witness:
  "waiting 1 ''caller'' ''definition'' 15000 15000
     (fst (sendAttempt ''caller'' ''definition'' None startedClient))
   \<and> consistent (fst (sendAttempt ''caller'' ''definition'' None startedClient))
   \<and> effects (onExit (Some 1) None (fst (sendAttempt ''caller'' ''definition'' None startedClient)))
     = [Write 1 ''definition'' None, EmitExit (Some 1) None]
   \<and> calls 1 (run demoParse
        (onExit (Some 1) None (fst (sendAttempt ''caller'' ''definition'' None startedClient)))
        [Elapse 14999]) = []
   \<and> calls 1 (handleMessage (run demoParse
        (onExit (Some 1) None (fst (sendAttempt ''caller'' ''definition'' None startedClient)))
        [Elapse 14999]) (Response (demoResponse 1 True None)))
     = [Resolve 1 ''caller'' (Some (JStr ''result''))]
   \<and> calls 1 (stopBegin (run demoParse
        (onExit (Some 1) None (fst (sendAttempt ''caller'' ''definition'' None startedClient)))
        [Elapse 14999]))
     = [Reject 1 ''caller'' ''TSServer is shutting down'']
   \<and> calls 1 (elapse 1 (run demoParse
        (onExit (Some 1) None (fst (sendAttempt ''caller'' ''definition'' None startedClient)))
        [Elapse 14999]))
     = [Reject 1 ''caller'' ''Request definition timed out after 15000ms'']"
proof -
  let ?c = "fst (sendAttempt ''caller'' ''definition'' None startedClient)"
  have w: "waiting 1 ''caller'' ''definition'' 15000 15000 ?c"
    by (simp add: waiting_def sendAttempt_def executorThrows_def startedClient_def initial_def
        calls_def Let_def timeoutFor_def)
  have co: "consistent ?c"
    by (intro consistent_sendAttempt)
      (simp add: startedClient_def consistent_def initial_def calls_def)
  have ev: "StopBegin \<notin> set [Elapse 14999 :: string event]"
    by simp
  have re: "received (run demoParse (onExit (Some 1) None ?c) [Elapse 14999]) = received ?c"
    by (simp add: run_def onExit_def)
  have nr: "\<forall>m \<in> set (drop (length (received ?c))
            (received (run demoParse (onExit (Some 1) None ?c) [Elapse 14999]))). \<not> responseFor 1 m"
    unfolding re by simp
  have n: "now ?c + elapsed [Elapse 14999 :: string event] < 15000"
    by (simp add: sendAttempt_def executorThrows_def startedClient_def initial_def Let_def)
  have n0: "now ?c = 0"
    by (simp add: sendAttempt_def executorThrows_def startedClient_def initial_def Let_def)
  have d: "decimal 15000 = ''15000''"
    by (simp add: decimal.simps digitChar_def)
  have r: "request_seq (demoResponse 1 True None) = 1" "success (demoResponse 1 True None)"
    "body (demoResponse 1 True None) = Some (JStr ''result'')"
    by (simp_all add: demoResponse_def)
  have e: "effects ?c = [Write 1 ''definition'' None]"
    by (simp add: sendAttempt_def executorThrows_def startedClient_def initial_def Let_def)
  from exit_leaves_pending_requests[OF w co ev nr n] w co r
  show ?thesis
    by (simp add: timeoutText_def d n0 e)
qed

text \<open>
  C6.  \<open>openFile\<close> adds the path to the set only after its \<open>await\<close>.  Here
  \<open>openFile\<close> is called twice for the same path on a started client, the second call
  before the first has resumed: the second call does not find the path in the set and
  writes a second \<open>open\<close> notification.  Two calls of \<open>closeFile\<close> made in the same
  way on the state that results write two \<open>close\<close> notifications.
\<close>

theorem open_twice_before_resuming:
  "openFileBegin (\<lambda>f. f) ''/test/file.ts'' startedClient
   = Inr (startedClient\<lparr>sequence := 2,
            effects := [Write 1 ''open'' (fileArgs ''/test/file.ts'')]\<rparr>,
          Some ''/test/file.ts'')
   \<and> openFileBegin (\<lambda>f. f) ''/test/file.ts''
       (startedClient\<lparr>sequence := 2,
          effects := [Write 1 ''open'' (fileArgs ''/test/file.ts'')]\<rparr>)
     = Inr (startedClient\<lparr>sequence := 3,
              effects := [Write 1 ''open'' (fileArgs ''/test/file.ts''),
                          Write 2 ''open'' (fileArgs ''/test/file.ts'')]\<rparr>,
            Some ''/test/file.ts'')
   \<and> openFileEnd (Some ''/test/file.ts'') (openFileEnd (Some ''/test/file.ts'')
       (startedClient\<lparr>sequence := 3,
          effects := [Write 1 ''open'' (fileArgs ''/test/file.ts''),
                      Write 2 ''open'' (fileArgs ''/test/file.ts'')]\<rparr>))
     = startedClient\<lparr>sequence := 3,
          effects := [Write 1 ''open'' (fileArgs ''/test/file.ts''),
                      Write 2 ''open'' (fileArgs ''/test/file.ts'')],
          openFiles := {''/test/file.ts''}\<rparr>
   \<and> closeFileBegin (\<lambda>f. f) ''/test/file.ts''
       (startedClient\<lparr>sequence := 3,
          effects := [Write 1 ''open'' (fileArgs ''/test/file.ts''),
                      Write 2 ''open'' (fileArgs ''/test/file.ts'')],
          openFiles := {''/test/file.ts''}\<rparr>)
     = Inr (startedClient\<lparr>sequence := 4,
              effects := [Write 1 ''open'' (fileArgs ''/test/file.ts''),
                          Write 2 ''open'' (fileArgs ''/test/file.ts''),
                          Write 3 ''close'' (fileArgs ''/test/file.ts'')],
              openFiles := {''/test/file.ts''}\<rparr>,
            Some ''/test/file.ts'')
   \<and> closeFileBegin (\<lambda>f. f) ''/test/file.ts''
       (startedClient\<lparr>sequence := 4,
          effects := [Write 1 ''open'' (fileArgs ''/test/file.ts''),
                      Write 2 ''open'' (fileArgs ''/test/file.ts''),
                      Write 3 ''close'' (fileArgs ''/test/file.ts'')],
          openFiles := {''/test/file.ts''}\<rparr>)
     = Inr (startedClient\<lparr>sequence := 5,
              effects := [Write 1 ''open'' (fileArgs ''/test/file.ts''),
                          Write 2 ''open'' (fileArgs ''/test/file.ts''),
                          Write 3 ''close'' (fileArgs ''/test/file.ts''),
                          Write 4 ''close'' (fileArgs ''/test/file.ts'')],
              openFiles := {''/test/file.ts''}\<rparr>,
            Some ''/test/file.ts'')"
  by (simp add: openFileBegin_def openFileEnd_def closeFileBegin_def notify_def started_def
      startedClient_def initial_def Let_def)

text \<open>
  C7.  An attempt on a started client arms one timer, 30000 ms for the command
  \<open>open\<close> and 15000 ms for any other.  Whatever else happens in the meantime (data for
  other requests, other attempts, notifications, the child's exit), as long as no
  response for this request arrives and \<open>stop\<close> is not called, the request is still
  pending and uncalled at every moment before the budget is over, and the passing of
  time that reaches the budget rejects it, once, with the timed-out error.  A timer
  that fires when the entry is gone changes nothing.
\<close>

theorem request_timeout_budget:
  fixes c :: "'c client"
  assumes "started c" and "consistent c" and "timersIssued c"
    and "StopBegin \<notin> set evs"
    and "\<forall>m \<in> set (drop (length (received c))
            (received (run parse (fst (sendAttempt k cmd args c)) evs))).
          \<not> responseFor (sequence c) m"
    and "elapsed evs < timeoutFor cmd" and "timeoutFor cmd \<le> elapsed evs + d"
  shows "timeoutFor cmd = (if cmd = ''open'' then 30000 else 15000)
       \<and> timers (fst (sendAttempt k cmd args c))
         = timers c @ [Timer (now c + timeoutFor cmd) (sequence c) cmd (timeoutFor cmd) k]
       \<and> map_of (pendingRequests (run parse (fst (sendAttempt k cmd args c)) evs)) (sequence c)
         = Some k
       \<and> calls (sequence c) (run parse (fst (sendAttempt k cmd args c)) evs) = []
       \<and> now (run parse (fst (sendAttempt k cmd args c)) evs) < now c + timeoutFor cmd
       \<and> now c + timeoutFor cmd
         \<le> now (run parse (fst (sendAttempt k cmd args c)) (evs @ [Elapse d]))
       \<and> calls (sequence c) (run parse (fst (sendAttempt k cmd args c)) (evs @ [Elapse d]))
         = [Reject (sequence c) k (timeoutText cmd (timeoutFor cmd))]
       \<and> gone (sequence c) (run parse (fst (sendAttempt k cmd args c)) (evs @ [Elapse d]))
       \<and> (\<forall>c' :: 'c client. \<forall>t. map_of (pendingRequests c') (timerSeq t) = None
             \<longrightarrow> onTimeout c' t = c')"
proof -
  let ?s = "sequence c"
  let ?B = "timeoutFor cmd"
  let ?c1 = "fst (sendAttempt k cmd args c)"
  let ?c2 = "run parse ?c1 evs"
  have w1: "waiting ?s k cmd ?B (now c + ?B) ?c1"
    by (rule waiting_after_attempt[OF assms(1-3)])
  have c1: "now ?c1 = now c" "received ?c1 = received c"
    "timers ?c1 = timers c @ [Timer (now c + ?B) ?s cmd ?B k]"
    by (simp_all add: sendAttempt_started[OF assms(1)])
  have "now ?c1 + elapsed evs < now c + ?B"
    using assms(6) c1 by simp
  from waiting_run[OF w1 assms(4) this, of parse] obtain ms where
    ms: "received ?c2 = received c @ ms"
    and w: "(\<forall>m \<in> set ms. \<not> responseFor ?s m) \<longrightarrow> waiting ?s k cmd ?B (now c + ?B) ?c2"
    using c1 by auto
  from ms have "drop (length (received c)) (received ?c2) = ms"
    by simp
  with assms(5) w have w2: "waiting ?s k cmd ?B (now c + ?B) ?c2"
    by simp
  have n2: "now ?c2 = now c + elapsed evs"
    using now_run[of parse ?c1 evs] c1 by simp
  have r: "run parse ?c1 (evs @ [Elapse d]) = elapse d ?c2"
    by (simp add: run_def)
  have "now c + ?B \<le> now ?c2 + d"
    using n2 assms(7) by simp
  from waiting_fires[OF w2 this]
  have f: "map_of (pendingRequests (elapse d ?c2)) ?s = None"
    "calls ?s (elapse d ?c2) = [Reject ?s k (timeoutText cmd ?B)]"
    by simp_all
  have "?s < sequence (elapse d ?c2)"
    using w2 by (simp add: waiting_def)
  with f have g: "gone ?s (elapse d ?c2)"
    by (simp add: gone_def)
  have t: "\<forall>c' :: 'c client. \<forall>t. map_of (pendingRequests c') (timerSeq t) = None
             \<longrightarrow> onTimeout c' t = c'"
    by (simp add: onTimeout_def)
  have b: "?B = (if cmd = ''open'' then 30000 else 15000)"
    by (simp add: timeoutFor_def)
  from w2 have p: "map_of (pendingRequests ?c2) ?s = Some k" "calls ?s ?c2 = []"
    by (simp_all add: waiting_def)
  have n3: "now ?c2 < now c + ?B" "now c + ?B \<le> now (run parse ?c1 (evs @ [Elapse d]))"
    using n2 assms(6,7) r by simp_all
  from b c1(3) p n3 f(2) g t show ?thesis
    unfolding r by blast
qed

theorem request_timeout_budget_witness:
  "started startedClient \<and> consistent startedClient \<and> timersIssued startedClient
   \<and> calls 1 (run demoParse (fst (sendAttempt ''caller'' ''definition'' None startedClient))
        [Elapse 14999]) = []
   \<and> calls 1 (run demoParse (fst (sendAttempt ''caller'' ''definition'' None startedClient))
        [Elapse 14999, Elapse 1])
     = [Reject 1 ''caller'' ''Request definition timed out after 15000ms'']"
proof -
  have h: "started startedClient" "consistent startedClient" "timersIssued startedClient"
    by (simp_all add: startedClient_def initial_def started_def consistent_def timersIssued_def
        calls_def)
  have s: "sequence startedClient = 1" "received startedClient = []"
    by (simp_all add: startedClient_def initial_def)
  have t: "timeoutFor ''definition'' = 15000"
    by (simp add: timeoutFor_def)
  have d: "decimal 15000 = ''15000''"
    by (simp add: decimal.simps digitChar_def)
  have r: "received (run demoParse (fst (sendAttempt ''caller'' ''definition'' None startedClient))
        [Elapse 14999]) = []"
    by (simp add: run_def sendAttempt_started[OF h(1)] s)
  from request_timeout_budget[OF h, where evs = "[Elapse 14999]" and parse = demoParse
      and k = "''caller''" and cmd = "''definition''" and args = None and d = 1]
  show ?thesis
    using h by (simp add: s t r timeoutText_def d)
qed



text \<open>
  C9.  The header of a frame counts bytes, and \<open>handleData\<close> counts string units.  The
  stream here is two frames as the external process writes them: the first has the
  content \<open>{\<close> followed by the character U+00E9, which is two string units and three
  bytes and is not JSON; the second has the content \<open>{}\<close>.  The slice that
  \<open>handleData\<close> takes for the first frame is three string units long and ends with the
  \<open>C\<close> of the second header.  What is left in the buffer does not begin with a header
  and never will: the message of the second frame is not delivered, and whatever
  chunks come later are appended to the buffer and nothing else happens.
\<close>

theorem byte_counted_frame_stalls:
  "utf8Length [CHR ''{'', CHR 0xE9] = 3
   \<and> length [CHR ''{'', CHR 0xE9] = 2
   \<and> handleData parse (initial :: 'c client)
        (wireFrame (True, True, [CHR ''{'', CHR 0xE9]) @ wireFrame (True, True, ''{}''))
     = (case parse [CHR ''{'', CHR 0xE9, CHR ''C''] of
          Some m \<Rightarrow>
            handleMessage ((initial :: 'c client)
              \<lparr>buffer := ''ontent-Length: 2'' @ [CR, LF, CR, LF] @ ''{}''\<rparr>) m
        | None \<Rightarrow> (initial :: 'c client)
            \<lparr>buffer := ''ontent-Length: 2'' @ [CR, LF, CR, LF] @ ''{}'',
             logs := [(Warn, ''Failed to parse TSServer Content-Length message'')]\<rparr>)
   \<and> buffer (handleData parse (initial :: 'c client)
        (wireFrame (True, True, [CHR ''{'', CHR 0xE9]) @ wireFrame (True, True, ''{}'')))
     = ''ontent-Length: 2'' @ [CR, LF, CR, LF] @ ''{}''
   \<and> foldl (handleData parse)
        (handleData parse (initial :: 'c client)
           (wireFrame (True, True, [CHR ''{'', CHR 0xE9]) @ wireFrame (True, True, ''{}'')))
        later
     = (handleData parse (initial :: 'c client)
          (wireFrame (True, True, [CHR ''{'', CHR 0xE9]) @ wireFrame (True, True, ''{}'')))
       \<lparr>buffer := ''ontent-Length: 2'' @ [CR, LF, CR, LF] @ ''{}'' @ concat later\<rparr>"
proof -
  let ?c = "handleData parse (initial :: 'c client)
        (wireFrame (True, True, [CHR ''{'', CHR 0xE9]) @ wireFrame (True, True, ''{}''))"
  have b0: "buffer (initial :: 'c client) = []"
    by (simp add: initial_def)
  have l0: "logs (initial :: 'c client) = []"
    by (simp add: initial_def)
  have u: "utf8Length [CHR ''{'', CHR 0xE9] = 3"
    by (simp add: utf8Length_def)
  have h: "?c = (case parse [CHR ''{'', CHR 0xE9, CHR ''C''] of
          Some m \<Rightarrow>
            handleMessage ((initial :: 'c client)
              \<lparr>buffer := ''ontent-Length: 2'' @ [CR, LF, CR, LF] @ ''{}''\<rparr>) m
        | None \<Rightarrow> (initial :: 'c client)
            \<lparr>buffer := ''ontent-Length: 2'' @ [CR, LF, CR, LF] @ ''{}'',
             logs := [(Warn, ''Failed to parse TSServer Content-Length message'')]\<rparr>)"
    using handleData_wireFrames[OF b0, of parse True True]
    by (cases "parse [CHR ''{'', CHR 0xE9, CHR ''C'']") (simp_all add: l0)
  have b: "buffer ?c = ''ontent-Length: 2'' @ [CR, LF, CR, LF] @ ''{}''"
    unfolding h by (simp split: option.splits)
  have "buffer ?c = CHR ''o'' # ''ntent-Length: 2'' @ [CR, LF, CR, LF] @ ''{}''"
    using b by simp
  from handleData_never_header[OF this, of parse later]
  have s: "foldl (handleData parse) ?c later
      = ?c\<lparr>buffer := ''ontent-Length: 2'' @ [CR, LF, CR, LF] @ ''{}'' @ concat later\<rparr>"
    using b by simp
  from u h b s show ?thesis
    by simp
qed

text \<open>
  C10, as the claim states it, fails: the child reports \<open>Debug Failure. False
  expression.\<close> for every attempt, and when the retries are used up the caller gets
  this text wrapped in a prefix and a suffix.
\<close>

theorem unretried_failure_unchanged_counterexample:
  "message (demoResponse 4 False (Some debugFailure)) = Some debugFailure
   \<and> snd (request (replyParse (Some debugFailure)) replySchedule ''caller'' ''definition'' None
          startedClient) = Thrown debugFailureError
   \<and> debugFailureError \<noteq> debugFailure"
  using debug_failures_exhaust
  by (simp add: demoResponse_def) (simp add: debugFailure_def debugFailureError_def)

text \<open>
  C10, amended.  When the response to an attempt reports a failure that is not retried,
  the call throws the error that \<open>handleMessage\<close> made for it, unchanged.  Its text is
  the message of the response when that is not empty and has no signature; it is
  \<open>Request failed\<close> when the response has no message or an empty one; and for a message
  with the signature (the last attempt) it is the message between \<open>TSServer Debug
  Failure: \<close> and the sentence on file state.
\<close>

theorem unretried_failure_text:
  fixes c :: "'c client"
  assumes "ready c" and "attempt \<le> maxRetries"
    and "sched attempt = [Data (frame (cra, crb, content))]"
    and "parse content = Some (Response r)"
    and "request_seq r = sequence c" and "\<not> success r"
    and "\<not> str_includes ''Debug Failure'' (failureText (message r)) \<or> attempt = maxRetries"
  shows "snd (retryLoop parse sched k cmd args maxRetries attempt c)
         = Thrown (failureText (message r))
       \<and> (\<forall>t. message r = Some t \<and> t \<noteq> [] \<and> \<not> str_includes ''Debug Failure'' t
              \<longrightarrow> failureText (message r) = t)
       \<and> (message r = None \<or> message r = Some [] \<longrightarrow> failureText (message r) = ''Request failed'')
       \<and> (\<forall>t. message r = Some t \<and> str_includes ''Debug Failure'' t
              \<longrightarrow> failureText (message r)
                  = ''TSServer Debug Failure: '' @ t
                    @ ''. This may be due to file state issues or concurrent operations.'')"
proof -
  let ?c2 = "run parse (fst (sendAttempt k cmd args c)) (sched attempt)"
  have c2: "?c2 = run parse (fst (sendAttempt k cmd args c)) [Data (frame (cra, crb, content))]"
    by (simp add: assms(3))
  from attempt_answered(1)[OF assms(1,4,5) c2] assms(6)
  have se: "settlement (sequence c) (effects ?c2) = Some (Rejected (failureText (message r)))"
    by simp
  have st: "started c"
    using assms(1) by (simp add: ready_def)
  from retryLoop_throws[where sched = sched and attempt = attempt and parse = parse and c = c
      and k = k and cmd = cmd and args = args, OF assms(2) st se assms(7)]
  have 1: "snd (retryLoop parse sched k cmd args maxRetries attempt c)
         = Thrown (failureText (message r))"
    by simp
  have 2: "\<forall>t. message r = Some t \<and> t \<noteq> [] \<and> \<not> str_includes ''Debug Failure'' t
              \<longrightarrow> failureText (message r) = t"
    by (simp add: failureText_def)
  have 3: "message r = None \<or> message r = Some [] \<longrightarrow> failureText (message r) = ''Request failed''"
    by (auto simp: failureText_def)
  have 4: "\<forall>t. message r = Some t \<and> str_includes ''Debug Failure'' t
              \<longrightarrow> failureText (message r)
                  = ''TSServer Debug Failure: '' @ t
                    @ ''. This may be due to file state issues or concurrent operations.''"
    by (auto simp: failureText_def)
  from 1 2 3 4 show ?thesis by blast
qed

theorem unretried_failure_text_witness:
  "ready startedClient
   \<and> snd (request (replyParse (Some ''File not found'')) replySchedule ''caller'' ''definition''
          None startedClient) = Thrown ''File not found''"
proof -
  let ?r = "demoResponse (int (Suc 0)) False (Some ''File not found'')"
  have le: "(0::nat) \<le> 3" by simp
  have sc: "replySchedule 0 = [Data (frame (True, True, decimal (Suc 0)))]"
    by (simp add: replySchedule_def)
  have pa: "replyParse (Some ''File not found'') (decimal (Suc 0)) = Some (Response ?r)"
    by (simp add: replyParse_def parseInt_decimal)
  have rs: "request_seq ?r = sequence startedClient" and ns: "\<not> success ?r"
    by (simp_all add: demoResponse_def ready_startedClient)
  have ft: "failureText (message ?r) = ''File not found''"
    by (simp add: demoResponse_def failureText_def)
  have sg: "\<not> str_includes ''Debug Failure'' (failureText (message ?r)) \<or> (0::nat) = 3"
    unfolding ft by simp
  from unretried_failure_text[where sched = replySchedule and attempt = 0 and maxRetries = 3
      and parse = "replyParse (Some ''File not found'')" and c = startedClient
      and k = "''caller''" and cmd = "''definition''" and args = None,
      OF ready_startedClient(1) le sc pa rs ns sg]
  have "snd (retryLoop (replyParse (Some ''File not found'')) replySchedule ''caller''
          ''definition'' None 3 0 startedClient) = Thrown ''File not found''"
    unfolding ft by blast
  moreover have "started startedClient"
    using ready_startedClient(1) by (simp add: ready_def)
  ultimately show ?thesis
    using ready_startedClient(1) by (simp add: request_def requestWithRetry_def)
qed

end
